theory Spec2Isabelle
  imports Complex_Main "HOL-Library.AList"
begin

section \<open>Data model of the cost engine (pkg/models)\<close>

text \<open>
  Conventions of the embedding.
  \<^item> A Go \<open>float64\<close> is a \<open>real\<close>: the arithmetic of the cost formulas is the exact one,
    rounding is not modelled.
  \<^item> A Go map that the code only reads by key is a partial function; a map that the code
    also ranges over is a list of key/value pairs (\<open>map_of\<close> reads it, \<open>AList.update\<close>
    stores into it), whose order stands for the order in which \<open>range\<close> visits the keys.
    Go leaves that order open, and the theorems below hold for every order.
  \<^item> A pointer that the code tests against \<open>nil\<close>, and the back-reference of an endpoint to
    its service (which the JSON decoding of a call graph leaves \<open>nil\<close>), are options. A
    function that dereferences such a pointer without a test returns an option as well:
    \<open>None\<close> stands for the run-time panic of the nil dereference.
  \<^item> Record fields keep the names of the Go struct fields; a name used by several structs
    carries the struct name in front.
  \<^item> Fields that the cost engine never reads (time stamps, latencies, provenance) and the
    logger are left out.
\<close>

record CostModel =
  CPUCostPerCoreHour :: real
  MemoryCostPerGBHour :: real
  NetworkCostPerGB :: real
  DiskCostPerGBHour :: real
  CostModel_RequestCost :: real
  Provider :: string
  Region :: string

record ResourceMetrics =
  CPUCores :: real
  MemoryMB :: real
  NetworkInMB :: real
  NetworkOutMB :: real
  DiskReadMB :: real
  DiskWriteMB :: real

record PerformanceMetrics =
  RequestRate :: real
  ErrorRate :: real

record EndpointMetrics =
  Resource :: "ResourceMetrics option"
  Performance :: "PerformanceMetrics option"

record ServiceMetrics =
  ServiceMetrics_Endpoints :: "string \<rightharpoonup> EndpointMetrics"
  Aggregate :: "ResourceMetrics option"

text \<open>An instant is a number of nanoseconds; a \<open>time.Duration\<close> is an \<open>int64\<close> of nanoseconds.\<close>

record TimeRange =
  Start :: int
  End :: int

record MetricsSnapshot =
  MetricsSnapshot_Services :: "string \<rightharpoonup> ServiceMetrics"
  MetricsSnapshot_TimeRange :: TimeRange

record Dependency =
  FromService :: string
  FromEndpoint :: string
  ToService :: string
  ToEndpoint :: string
  CallType :: string
  Weight :: real

text \<open>
  \<open>Endpoint_Service\<close> is the \<open>Name\<close> of the service that the back-reference
  \<open>Endpoint.Service\<close> points to, \<open>None\<close> when the pointer is \<open>nil\<close>.
\<close>

record Endpoint =
  Path :: string
  Method :: string
  Endpoint_Service :: "string option"

record Service =
  Name :: string
  Service_Endpoints :: "Endpoint list"

record CallGraph =
  CallGraph_Services :: "(string \<times> Service) list"
  Dependencies :: "Dependency list"

record DownstreamCost =
  DownstreamCost_Service :: string
  DownstreamCost_Endpoint :: string
  Cost :: real
  CallsPerRequest :: real
  Depth :: int

record CostBreakdown =
  CPUCost :: real
  MemoryCost :: real
  NetworkCost :: real
  DiskCost :: real
  RequestCost :: real
  DownstreamTotal :: real
  Total :: real
  Details :: "(string \<times> real) list"

record EndpointCost =
  EndpointCost_Service :: string
  EndpointCost_Endpoint :: string
  EndpointCost_Method :: string
  DirectCost :: real
  DownstreamCosts :: "DownstreamCost list"
  TotalCost :: real
  CostPerRequest :: real
  RequestCount :: real
  EndpointCost_CostBreakdown :: "CostBreakdown option"

record ServiceCost =
  ServiceName :: string
  ServiceCost_Endpoints :: "(string \<times> EndpointCost) list"
  ServiceCost_TotalCost :: real
  ServiceCost_DirectCost :: real
  AttributedCost :: real

text \<open>
  A recommendation is a text built by \<open>fmt.Sprintf\<close>; it is modelled by the rule that
  produced it and the arguments of the format.
\<close>

datatype Recommendation =
  OptimizeHighestCost string string real
  | ReviewDependencyChain string string

record CostReport =
  CostReport_Services :: "(string \<times> ServiceCost) list"
  CostReport_TotalCost :: real
  CostReport_TimeRange :: TimeRange
  CostReport_CostModel :: CostModel
  TopCostly :: "EndpointCost list"
  Recommendations :: "Recommendation list"

datatype error = CyclicGraph

subsection \<open>cost.go\<close>

definition NewCostReport :: "CostModel \<Rightarrow> TimeRange \<Rightarrow> CostReport" where
  "NewCostReport costModel timeRange =
     \<lparr>CostReport_Services = [], CostReport_TotalCost = 0, CostReport_TimeRange = timeRange,
      CostReport_CostModel = costModel, TopCostly = [], Recommendations = []\<rparr>"

definition AddServiceCost :: "CostReport \<Rightarrow> ServiceCost \<Rightarrow> CostReport" where
  "AddServiceCost cr sc =
     cr\<lparr>CostReport_Services := AList.update (ServiceName sc) sc (CostReport_Services cr),
        CostReport_TotalCost := CostReport_TotalCost cr + ServiceCost_TotalCost sc\<rparr>"

definition CalculateTotalCost :: "CostReport \<Rightarrow> CostReport" where
  "CalculateTotalCost cr =
     cr\<lparr>CostReport_TotalCost :=
          fold (\<lambda>(k, sc) total. total + ServiceCost_TotalCost sc) (CostReport_Services cr) 0\<rparr>"

definition NewCostBreakdown ::
  "ResourceMetrics option \<Rightarrow> PerformanceMetrics option \<Rightarrow> CostModel option \<Rightarrow> real
     \<Rightarrow> CostBreakdown" where
  "NewCostBreakdown metrics perfMetrics model durationHours =
     (let cb = \<lparr>CPUCost = 0, MemoryCost = 0, NetworkCost = 0, DiskCost = 0, RequestCost = 0,
                DownstreamTotal = 0, Total = 0, Details = []\<rparr>;
          cb = (case (metrics, model) of
                  (Some m, Some md) \<Rightarrow>
                    cb\<lparr>CPUCost := CPUCores m * CPUCostPerCoreHour md * durationHours,
                       MemoryCost := (MemoryMB m / 1024) * MemoryCostPerGBHour md * durationHours,
                       NetworkCost := ((NetworkInMB m + NetworkOutMB m) / 1024) * NetworkCostPerGB md,
                       DiskCost :=
                         ((DiskReadMB m + DiskWriteMB m) / 1024) * DiskCostPerGBHour md * durationHours\<rparr>
                | _ \<Rightarrow> cb);
          cb = (case (perfMetrics, model) of
                  (Some p, Some md) \<Rightarrow>
                    cb\<lparr>RequestCost := RequestRate p * CostModel_RequestCost md * durationHours * 3600\<rparr>
                | _ \<Rightarrow> cb)
      in cb\<lparr>Total := CPUCost cb + MemoryCost cb + NetworkCost cb + DiskCost cb + RequestCost cb\<rparr>)"

subsection \<open>metrics.go, service.go\<close>

definition GetServiceMetrics :: "MetricsSnapshot \<Rightarrow> string \<Rightarrow> ServiceMetrics option" where
  "GetServiceMetrics ms serviceName = MetricsSnapshot_Services ms serviceName"

definition GetService :: "CallGraph \<Rightarrow> string \<Rightarrow> Service option" where
  "GetService cg name = map_of (CallGraph_Services cg) name"

definition GetEndpoint :: "Service \<Rightarrow> string \<Rightarrow> string \<Rightarrow> Endpoint option" where
  "GetEndpoint s path method =
     List.find (\<lambda>ep. Path ep = path \<and> Method ep = method) (Service_Endpoints s)"

section \<open>The cost engine (internal/costengine)\<close>

text \<open>
  Of the calculator only the cost model is read; \<open>NewCalculator\<close> always sets it.
\<close>

record Calculator =
  costModel :: CostModel

text \<open>\<open>fmt.Sprintf("%s:%s", a, b)\<close>\<close>

definition key2 :: "string \<Rightarrow> string \<Rightarrow> string" where
  "key2 a b = a @ '':'' @ b"

text \<open>
  \<open>t.Sub(u)\<close> of the Go library saturates at the bounds of \<open>int64\<close>; \<open>d.Hours()\<close> is the
  duration in hours.
\<close>

definition Sub :: "int \<Rightarrow> int \<Rightarrow> int" where
  "Sub t u = max (- (2 ^ 63)) (min (2 ^ 63 - 1) (t - u))"

definition Hours :: "int \<Rightarrow> real" where
  "Hours d = real_of_int d / 3600000000000"

definition calculateEndpointCost ::
  "Calculator \<Rightarrow> Endpoint \<Rightarrow> ServiceMetrics option \<Rightarrow> real \<Rightarrow> EndpointCost option" where
  "calculateEndpointCost c endpoint serviceMetrics durationHours =
     (case Endpoint_Service endpoint of
        None \<Rightarrow> None
      | Some serviceName \<Rightarrow>
          (let ec = \<lparr>EndpointCost_Service = serviceName, EndpointCost_Endpoint = Path endpoint,
                     EndpointCost_Method = Method endpoint, DirectCost = 0, DownstreamCosts = [],
                     TotalCost = 0, CostPerRequest = 0, RequestCount = 0,
                     EndpointCost_CostBreakdown = None\<rparr>
           in case serviceMetrics of
                None \<Rightarrow> Some ec
              | Some sm \<Rightarrow>
                  (case ServiceMetrics_Endpoints sm (key2 (Path endpoint) (Method endpoint)) of
                     None \<Rightarrow> Some ec
                   | Some endpointMetrics \<Rightarrow>
                       (case Resource endpointMetrics of
                          None \<Rightarrow> Some ec
                        | Some res \<Rightarrow>
                            (let costBreakdown =
                                   NewCostBreakdown (Some res) (Performance endpointMetrics)
                                     (Some (costModel c)) durationHours;
                                 ec = ec\<lparr>DirectCost := Total costBreakdown,
                                         EndpointCost_CostBreakdown := Some costBreakdown\<rparr>
                             in case Performance endpointMetrics of
                                  None \<Rightarrow> Some ec
                                | Some perf \<Rightarrow>
                                    Some (ec\<lparr>RequestCount :=
                                               RequestRate perf * durationHours * 3600\<rparr>))))))"

text \<open>
  \<open>calculateDownstreamCosts\<close>. \<open>downstreamLoop\<close> is its \<open>for\<close> loop over
  \<open>callGraph.Dependencies\<close>, with the slice \<open>downstreamCosts\<close> built so far and the map
  \<open>visited\<close>, which the Go code shares between all the recursive calls.
\<close>

function calculateDownstreamCosts ::
  "Calculator \<Rightarrow> Endpoint \<Rightarrow> CallGraph \<Rightarrow> (string \<times> EndpointCost) list \<Rightarrow> int
     \<Rightarrow> (string \<Rightarrow> bool) \<Rightarrow> (DownstreamCost list \<times> (string \<Rightarrow> bool)) option"
and downstreamLoop ::
  "Calculator \<Rightarrow> Endpoint \<Rightarrow> CallGraph \<Rightarrow> (string \<times> EndpointCost) list \<Rightarrow> int
     \<Rightarrow> Dependency list \<Rightarrow> DownstreamCost list \<Rightarrow> (string \<Rightarrow> bool)
     \<Rightarrow> (DownstreamCost list \<times> (string \<Rightarrow> bool)) option"
where
  "calculateDownstreamCosts c endpoint callGraph endpointCosts depth visited =
     (if depth > 10 then Some ([], visited)
      else downstreamLoop c endpoint callGraph endpointCosts depth (Dependencies callGraph)
             [] visited)"
| "downstreamLoop c endpoint callGraph endpointCosts depth [] downstreamCosts visited =
     Some (downstreamCosts, visited)"
| "downstreamLoop c endpoint callGraph endpointCosts depth (dep # deps) downstreamCosts visited =
     (case Endpoint_Service endpoint of
        None \<Rightarrow> None
      | Some serviceName \<Rightarrow>
          if FromService dep = serviceName \<and> FromEndpoint dep = Path endpoint then
            (let depKey = key2 (ToService dep) (ToEndpoint dep) in
             if visited depKey then
               downstreamLoop c endpoint callGraph endpointCosts depth deps downstreamCosts visited
             else
               (let targetKey = key2 (ToEndpoint dep) ''GET'';
                    targetCost = (case map_of endpointCosts targetKey of
                                    Some ec \<Rightarrow> DirectCost ec
                                  | None \<Rightarrow> 0);
                    weightedCost = targetCost * Weight dep;
                    dc = \<lparr>DownstreamCost_Service = ToService dep,
                          DownstreamCost_Endpoint = ToEndpoint dep,
                          Cost = weightedCost, CallsPerRequest = Weight dep,
                          Depth = depth + 1\<rparr>;
                    downstreamCosts = downstreamCosts @ [dc]
                in case GetService callGraph (ToService dep) of
                     None \<Rightarrow>
                       downstreamLoop c endpoint callGraph endpointCosts depth deps
                         downstreamCosts visited
                   | Some targetService \<Rightarrow>
                       (case GetEndpoint targetService (ToEndpoint dep) ''GET'' of
                          None \<Rightarrow>
                            downstreamLoop c endpoint callGraph endpointCosts depth deps
                              downstreamCosts visited
                        | Some targetEndpoint \<Rightarrow>
                            (case calculateDownstreamCosts c targetEndpoint callGraph endpointCosts
                                    (depth + 1) (visited(depKey := True)) of
                               None \<Rightarrow> None
                             | Some (nestedCosts, visited') \<Rightarrow>
                                 downstreamLoop c endpoint callGraph endpointCosts depth deps
                                   (downstreamCosts
                                      @ map (\<lambda>nc. nc\<lparr>Cost := Cost nc * Weight dep\<rparr>) nestedCosts)
                                   (visited'(depKey := False))))))
          else downstreamLoop c endpoint callGraph endpointCosts depth deps downstreamCosts visited)"
  by pat_completeness auto
termination
  by (relation "measures
        [\<lambda>x. case x of Inl (c, ep, cg, ecs, depth, vis) \<Rightarrow> nat (11 - depth)
                      | Inr (c, ep, cg, ecs, depth, deps, acc, vis) \<Rightarrow> nat (11 - depth),
         \<lambda>x. case x of Inl (c, ep, cg, ecs, depth, vis) \<Rightarrow>
                        (if depth > 10 then 0 else length (Dependencies cg) + 2)
                      | Inr (c, ep, cg, ecs, depth, deps, acc, vis) \<Rightarrow> length deps + 1]")
     auto

declare calculateDownstreamCosts.simps [simp del]

text \<open>The loop \<open>for _, dc := range downstreamCosts { downstreamTotal += dc.Cost }\<close>.\<close>

definition sumDownstream :: "DownstreamCost list \<Rightarrow> real" where
  "sumDownstream downstreamCosts = fold (\<lambda>dc downstreamTotal. downstreamTotal + Cost dc) downstreamCosts 0"

text \<open>The first loop of \<open>CalculateCosts\<close> over the endpoints of a service: direct costs.\<close>

fun directCostLoop ::
  "Calculator \<Rightarrow> ServiceMetrics option \<Rightarrow> real \<Rightarrow> Endpoint list \<Rightarrow> ServiceCost
     \<Rightarrow> ServiceCost option" where
  "directCostLoop c serviceMetrics durationHours [] serviceCost = Some serviceCost"
| "directCostLoop c serviceMetrics durationHours (endpoint # endpoints) serviceCost =
     (case calculateEndpointCost c endpoint serviceMetrics durationHours of
        None \<Rightarrow> None
      | Some endpointCost \<Rightarrow>
          (let key = key2 (Path endpoint) (Method endpoint)
           in directCostLoop c serviceMetrics durationHours endpoints
                (serviceCost\<lparr>ServiceCost_Endpoints :=
                               AList.update key endpointCost (ServiceCost_Endpoints serviceCost),
                             ServiceCost_DirectCost :=
                               ServiceCost_DirectCost serviceCost + DirectCost endpointCost\<rparr>)))"

text \<open>
  The second loop over the endpoints of a service: attributed costs. The entry of the map
  is a pointer, so the assignments to \<open>endpointCost\<close> are stored back under \<open>key\<close>.
\<close>

definition finalizeEndpointCost :: "EndpointCost \<Rightarrow> DownstreamCost list \<Rightarrow> EndpointCost" where
  "finalizeEndpointCost endpointCost downstreamCosts =
     (let endpointCost = endpointCost\<lparr>DownstreamCosts := downstreamCosts\<rparr>;
          downstreamTotal = sumDownstream downstreamCosts;
          endpointCost = endpointCost\<lparr>TotalCost := DirectCost endpointCost + downstreamTotal\<rparr>;
          endpointCost =
            (case EndpointCost_CostBreakdown endpointCost of
               None \<Rightarrow> endpointCost
             | Some cb \<Rightarrow>
                 endpointCost\<lparr>EndpointCost_CostBreakdown :=
                                Some (cb\<lparr>DownstreamTotal := downstreamTotal,
                                         Total := TotalCost endpointCost\<rparr>)\<rparr>)
      in if RequestCount endpointCost > 0
         then endpointCost\<lparr>CostPerRequest := TotalCost endpointCost / RequestCount endpointCost\<rparr>
         else endpointCost)"

fun attributedCostLoop ::
  "Calculator \<Rightarrow> CallGraph \<Rightarrow> Endpoint list \<Rightarrow> ServiceCost \<Rightarrow> ServiceCost option" where
  "attributedCostLoop c callGraph [] serviceCost = Some serviceCost"
| "attributedCostLoop c callGraph (endpoint # endpoints) serviceCost =
     (let key = key2 (Path endpoint) (Method endpoint)
      in case map_of (ServiceCost_Endpoints serviceCost) key of
           None \<Rightarrow> None
         | Some endpointCost \<Rightarrow>
             (case calculateDownstreamCosts c endpoint callGraph
                     (ServiceCost_Endpoints serviceCost) 0 (\<lambda>k. False) of
                None \<Rightarrow> None
              | Some (downstreamCosts, visited) \<Rightarrow>
                  attributedCostLoop c callGraph endpoints
                    (serviceCost\<lparr>ServiceCost_Endpoints :=
                                   AList.update key
                                     (finalizeEndpointCost endpointCost downstreamCosts)
                                     (ServiceCost_Endpoints serviceCost)\<rparr>)))"

text \<open>The total of a service: its direct cost plus the downstream costs of its endpoints.\<close>

definition totalServiceCost :: "ServiceCost \<Rightarrow> ServiceCost" where
  "totalServiceCost serviceCost =
     (let serviceCost = serviceCost\<lparr>ServiceCost_TotalCost := ServiceCost_DirectCost serviceCost\<rparr>;
          serviceCost =
            fold (\<lambda>(k, ec) sc. sc\<lparr>AttributedCost := AttributedCost sc + sumDownstream (DownstreamCosts ec)\<rparr>)
              (ServiceCost_Endpoints serviceCost) serviceCost
      in serviceCost\<lparr>ServiceCost_TotalCost :=
                       ServiceCost_TotalCost serviceCost + AttributedCost serviceCost\<rparr>)"

text \<open>The loop of \<open>CalculateCosts\<close> over \<open>callGraph.Services\<close>.\<close>

fun serviceLoop ::
  "Calculator \<Rightarrow> CallGraph \<Rightarrow> MetricsSnapshot \<Rightarrow> real \<Rightarrow> (string \<times> Service) list
     \<Rightarrow> CostReport \<Rightarrow> CostReport option" where
  "serviceLoop c callGraph metricsSnapshot durationHours [] report = Some report"
| "serviceLoop c callGraph metricsSnapshot durationHours ((serviceName, service) # services) report =
     (let serviceCost = \<lparr>ServiceName = serviceName, ServiceCost_Endpoints = [],
                         ServiceCost_TotalCost = 0, ServiceCost_DirectCost = 0,
                         AttributedCost = 0\<rparr>;
          serviceMetrics = GetServiceMetrics metricsSnapshot serviceName
      in case directCostLoop c serviceMetrics durationHours (Service_Endpoints service)
                serviceCost of
           None \<Rightarrow> None
         | Some serviceCost \<Rightarrow>
             (case attributedCostLoop c callGraph (Service_Endpoints service) serviceCost of
                None \<Rightarrow> None
              | Some serviceCost \<Rightarrow>
                  serviceLoop c callGraph metricsSnapshot durationHours services
                    (AddServiceCost report (totalServiceCost serviceCost))))"

text \<open>
  \<open>findTopCostlyEndpoints\<close>: all endpoint costs of the report, ordered by the two nested
  loops that swap \<open>allEndpoints[i]\<close> and \<open>allEndpoints[j]\<close>, cut to the first \<open>n\<close>.
\<close>

function sortInner :: "nat \<Rightarrow> nat \<Rightarrow> EndpointCost list \<Rightarrow> EndpointCost list" where
  "sortInner i j allEndpoints =
     (if j < length allEndpoints then
        sortInner i (j + 1)
          (if TotalCost (allEndpoints ! j) > TotalCost (allEndpoints ! i)
           then allEndpoints[i := allEndpoints ! j, j := allEndpoints ! i]
           else allEndpoints)
      else allEndpoints)"
  by pat_completeness auto
termination
  by (relation "measure (\<lambda>(i, j, xs). length xs - j)") auto

declare sortInner.simps [simp del]

function sortOuter :: "nat \<Rightarrow> EndpointCost list \<Rightarrow> EndpointCost list" where
  "sortOuter i allEndpoints =
     (if int i < int (length allEndpoints) - 1
      then sortOuter (i + 1) (sortInner i (i + 1) allEndpoints)
      else allEndpoints)"
  by pat_completeness auto

lemma length_sortInner: "length (sortInner i j xs) = length xs"
proof (induction i j xs rule: sortInner.induct)
  case (1 i j xs)
  show ?case
  proof (cases "j < length xs")
    case True
    with 1 show ?thesis by (subst sortInner.simps) simp
  next
    case False
    then show ?thesis by (subst sortInner.simps) simp
  qed
qed

termination sortOuter
  by (relation "measure (\<lambda>(i, xs). length xs - i)") (auto simp: length_sortInner)

declare sortOuter.simps [simp del]

definition findTopCostlyEndpoints :: "Calculator \<Rightarrow> CostReport \<Rightarrow> nat \<Rightarrow> EndpointCost list" where
  "findTopCostlyEndpoints c report n =
     (let allEndpoints =
            concat (map (\<lambda>(k, serviceCost). map snd (ServiceCost_Endpoints serviceCost))
                      (CostReport_Services report));
          allEndpoints = sortOuter 0 allEndpoints
      in if length allEndpoints > n then take n allEndpoints else allEndpoints)"

text \<open>\<open>generateRecommendations\<close>: the recommendations in the order of their \<open>append\<close>.\<close>

definition reviewRecommendation :: "EndpointCost \<Rightarrow> Recommendation list" where
  "reviewRecommendation ec =
     (case EndpointCost_CostBreakdown ec of
        None \<Rightarrow> []
      | Some cb \<Rightarrow>
          if DirectCost ec > 0 then
            (let ratio = DownstreamTotal cb / DirectCost ec
             in if ratio > 5 then
                  [ReviewDependencyChain (EndpointCost_Service ec) (EndpointCost_Endpoint ec)]
                else [])
          else [])"

definition generateRecommendations :: "Calculator \<Rightarrow> CostReport \<Rightarrow> Recommendation list" where
  "generateRecommendations c report =
     (let recommendations =
            (case TopCostly report of
               [] \<Rightarrow> []
             | topEndpoint # rest \<Rightarrow>
                 [OptimizeHighestCost (EndpointCost_Service topEndpoint)
                    (EndpointCost_Endpoint topEndpoint) (CostPerRequest topEndpoint)])
      in recommendations @
         concat (map (\<lambda>(k, serviceCost).
                        concat (map (\<lambda>(k', ec). reviewRecommendation ec)
                                  (ServiceCost_Endpoints serviceCost)))
                   (CostReport_Services report)))"

text \<open>
  \<open>CalculateCosts\<close> returns the report and the error of its signature (\<open>None\<close> is the
  \<open>nil\<close> error); the outer option is \<open>None\<close> when the call panics.
\<close>

definition CalculateCosts ::
  "Calculator \<Rightarrow> CallGraph \<Rightarrow> MetricsSnapshot \<Rightarrow> TimeRange \<Rightarrow> (CostReport \<times> error option) option" where
  "CalculateCosts c callGraph metricsSnapshot timeRange =
     (let report = NewCostReport (costModel c) timeRange;
          durationHours = Hours (Sub (End timeRange) (Start timeRange))
      in case serviceLoop c callGraph metricsSnapshot durationHours
                (CallGraph_Services callGraph) report of
           None \<Rightarrow> None
         | Some report \<Rightarrow>
             (let report = report\<lparr>TopCostly := findTopCostlyEndpoints c report 10\<rparr>;
                  report = report\<lparr>Recommendations := generateRecommendations c report\<rparr>
              in Some (report, None)))"

section \<open>The graph engine (internal/graph)\<close>

text \<open>
  The map \<open>nodes\<close> of a graph is ranged over, so it is a list of key/value pairs. A node
  and an edge are Go pointers to structs that the package never writes to after their
  creation; they are modelled by the values of the structs, and the two ends of an edge
  are taken as non-nil. The field \<open>Data\<close> of a node, an \<open>interface{}\<close> that the package
  stores and never reads, is left out, and with it the parameter \<open>data\<close> of \<open>AddNode\<close>.
\<close>

record Node =
  ID :: string
  Node_Service :: string
  Node_Endpoint :: string
  Node_Method :: string

record Edge =
  From :: Node
  To :: Node
  Edge_Weight :: real
  Edge_Data :: "Dependency option"

record Graph =
  nodes :: "(string \<times> Node) list"
  edges :: "Edge list"

definition NewGraph :: Graph where
  "NewGraph = \<lparr>nodes = [], edges = []\<rparr>"

definition AddNode :: "Graph \<Rightarrow> string \<Rightarrow> string \<Rightarrow> string \<Rightarrow> string \<Rightarrow> Node \<times> Graph" where
  "AddNode g nodeID service endpoint method =
     (case map_of (nodes g) nodeID of
        Some node \<Rightarrow> (node, g)
      | None \<Rightarrow>
          (let node = \<lparr>ID = nodeID, Node_Service = service, Node_Endpoint = endpoint,
                       Node_Method = method\<rparr>
           in (node, g\<lparr>nodes := AList.update nodeID node (nodes g)\<rparr>)))"

definition AddEdge :: "Graph \<Rightarrow> Node \<Rightarrow> Node \<Rightarrow> real \<Rightarrow> Dependency option \<Rightarrow> Edge \<times> Graph" where
  "AddEdge g fromNode toNode weight dep =
     (let edge = \<lparr>From = fromNode, To = toNode, Edge_Weight = weight, Edge_Data = dep\<rparr>
      in (edge, g\<lparr>edges := edges g @ [edge]\<rparr>))"

definition GetNode :: "Graph \<Rightarrow> string \<Rightarrow> Node option" where
  "GetNode g nodeID = map_of (nodes g) nodeID"

definition GetOutgoingEdges :: "Graph \<Rightarrow> Node \<Rightarrow> Edge list" where
  "GetOutgoingEdges g node = filter (\<lambda>edge. ID (From edge) = ID node) (edges g)"

definition GetIncomingEdges :: "Graph \<Rightarrow> Node \<Rightarrow> Edge list" where
  "GetIncomingEdges g node = filter (\<lambda>edge. ID (To edge) = ID node) (edges g)"

subsection \<open>HasCycle\<close>

text \<open>
  \<open>hasCycleDFS\<close>, with \<open>hasCycleEdges\<close> for its loop over the outgoing edges. The maps
  \<open>visited\<close> and \<open>recStack\<close> are shared by all the recursive calls, so they are passed on
  and returned. When \<open>GetNode\<close> does not find \<open>nodeID\<close>, the node is \<open>nil\<close> and
  \<open>GetOutgoingEdges\<close> dereferences it at the first edge of the graph: the result \<open>None\<close>
  stands for that panic.
\<close>

function hasCycleDFS ::
  "Graph \<Rightarrow> string \<Rightarrow> (string \<Rightarrow> bool) \<times> (string \<Rightarrow> bool)
     \<Rightarrow> (bool \<times> (string \<Rightarrow> bool) \<times> (string \<Rightarrow> bool)) option"
and hasCycleEdges ::
  "Graph \<Rightarrow> Edge list \<Rightarrow> (string \<Rightarrow> bool) \<times> (string \<Rightarrow> bool)
     \<Rightarrow> (bool \<times> (string \<Rightarrow> bool) \<times> (string \<Rightarrow> bool)) option"
where
  "hasCycleDFS g nodeID (visited, recStack) =
     (let visited = visited(nodeID := True);
          recStack = recStack(nodeID := True)
      in case (case GetNode g nodeID of
                 Some node \<Rightarrow> Some (GetOutgoingEdges g node)
               | None \<Rightarrow> if edges g = [] then Some [] else None) of
           None \<Rightarrow> None
         | Some outgoing \<Rightarrow>
             (case hasCycleEdges g outgoing (visited, recStack) of
                None \<Rightarrow> None
              | Some (True, st) \<Rightarrow> Some (True, st)
              | Some (False, visited, recStack) \<Rightarrow>
                  Some (False, visited, recStack(nodeID := False))))"
| "hasCycleEdges g [] (visited, recStack) = Some (False, visited, recStack)"
| "hasCycleEdges g (edge # rest) (visited, recStack) =
     (if \<not> visited (ID (To edge)) then
        (case hasCycleDFS g (ID (To edge)) (visited, recStack) of
           None \<Rightarrow> None
         | Some (True, st) \<Rightarrow> Some (True, st)
         | Some (False, st) \<Rightarrow> hasCycleEdges g rest st)
      else if recStack (ID (To edge)) then Some (True, visited, recStack)
      else hasCycleEdges g rest (visited, recStack))"
  by pat_completeness auto

text \<open>
  The recursion ends because a call marks its node in \<open>visited\<close>, the marks are never
  removed, and only unmarked targets of edges are entered.
\<close>

lemma hasCycle_visited_mono:
  "hasCycleDFS_hasCycleEdges_dom (Inl (g, nodeID, visited, recStack)) \<Longrightarrow>
     hasCycleDFS g nodeID (visited, recStack) = Some (b, visited', recStack') \<Longrightarrow>
     visited x \<Longrightarrow> visited' x"
  "hasCycleDFS_hasCycleEdges_dom (Inr (g, es, visited, recStack)) \<Longrightarrow>
     hasCycleEdges g es (visited, recStack) = Some (b, visited', recStack') \<Longrightarrow>
     visited x \<Longrightarrow> visited' x"
proof (induction g nodeID "(visited, recStack)" and g es "(visited, recStack)"
         arbitrary: visited recStack b visited' recStack' and visited recStack b visited' recStack'
         rule: hasCycleDFS_hasCycleEdges.pinduct)
  case (1 g nodeID visited recStack)
  from 1(3) 1(1) obtain outgoing b0 v0 r0 where
    "hasCycleEdges g outgoing (visited(nodeID := True), recStack(nodeID := True)) = Some (b0, v0, r0)"
    and o: "(case GetNode g nodeID of Some node \<Rightarrow> Some (GetOutgoingEdges g node)
               | None \<Rightarrow> if edges g = [] then Some [] else None) = Some outgoing"
    and "visited' = v0"
    by (auto simp: hasCycleDFS.psimps Let_def split: option.splits bool.splits if_splits)
  with 1(2)[OF refl refl o, of b0 v0 r0] 1(4) show ?case by auto
next
  case (2 g visited recStack)
  then show ?case by (simp add: hasCycleEdges.psimps)
next
  case (3 g edge rest visited recStack)
  show ?case
  proof (cases "visited (ID (To edge))")
    case True
    with 3(1,5,6) 3(4)[of b visited' recStack'] show ?thesis
      by (auto simp: hasCycleEdges.psimps split: if_splits)
  next
    case False
    with 3(1,5) obtain b0 v0 r0 where
      d: "hasCycleDFS g (ID (To edge)) (visited, recStack) = Some (b0, v0, r0)"
      by (auto simp: hasCycleEdges.psimps split: option.splits)
    from 3(2)[OF False d] 3(6) have v0: "v0 x" by simp
    show ?thesis
    proof (cases b0)
      case True
      with False d 3(1,5) v0 show ?thesis by (auto simp: hasCycleEdges.psimps)
    next
      case b0: False
      with False d 3(1,5) have "hasCycleEdges g rest (v0, r0) = Some (b, visited', recStack')"
        by (auto simp: hasCycleEdges.psimps)
      from 3(3)[OF False d _ _ this v0] b0 show ?thesis by auto
    qed
  qed
qed

definition unvisitedIn :: "string set \<Rightarrow> (string \<Rightarrow> bool) \<Rightarrow> nat" where
  "unvisitedIn U visited = card {x \<in> U. \<not> visited x}"

definition targetIDs :: "Edge list \<Rightarrow> string set" where
  "targetIDs es = ID ` To ` set es"

lemma unvisitedIn_mono:
  assumes "finite U'" "U \<subseteq> U'" "\<And>x. visited x \<Longrightarrow> visited' x"
  shows "unvisitedIn U visited' \<le> unvisitedIn U' visited"
  unfolding unvisitedIn_def using assms by (intro card_mono) auto

lemma unvisitedIn_less:
  assumes "finite U'" "U \<subseteq> U'" "\<And>x. visited x \<Longrightarrow> visited' x"
    and "n \<in> U'" "\<not> visited n" "n \<notin> U \<or> visited' n"
  shows "unvisitedIn U visited' < unvisitedIn U' visited"
  unfolding unvisitedIn_def using assms by (intro psubset_card_mono) auto

termination hasCycleDFS
proof (relation "inv_image (less_than <*lex*> less_than)
         (\<lambda>x. case x of
                 Inl (g, n, visited, recStack) \<Rightarrow>
                   (unvisitedIn (targetIDs (edges g) - {n}) visited, length (edges g) + 2)
               | Inr (g, es, visited, recStack) \<Rightarrow>
                   (unvisitedIn (targetIDs (edges g) \<union> targetIDs es) visited, length es + 1))",
       goal_cases)
  case 1
  show ?case by (intro wf_inv_image wf_lex_prod wf_less_than)
next
  case (2 g nodeID visited recStack xa xb x2)
  have sub: "targetIDs x2 \<subseteq> targetIDs (edges g)" and len: "length x2 \<le> length (edges g)"
    using 2(3) by (auto simp: GetOutgoingEdges_def targetIDs_def split: option.splits if_splits)
  have "unvisitedIn (targetIDs (edges g) \<union> targetIDs x2) xa \<le> unvisitedIn (targetIDs (edges g) - {nodeID}) visited"
    unfolding unvisitedIn_def using sub 2(1)
    by (intro card_mono) (auto simp: targetIDs_def)
  with len show ?case by auto
next
  case (3 g edge rest visited recStack)
  have "unvisitedIn (targetIDs (edges g) - {ID (To edge)}) visited
          < unvisitedIn (targetIDs (edges g) \<union> targetIDs (edge # rest)) visited"
    by (rule unvisitedIn_less[where n = "ID (To edge)"]) (use 3 in \<open>auto simp: targetIDs_def\<close>)
  then show ?case by simp
next
  case (4 g edge rest visited recStack x2 x1 x2a)
  obtain v r where x2a: "x2a = (v, r)" by (cases x2a)
  have "unvisitedIn (targetIDs (edges g) \<union> targetIDs rest) v
          \<le> unvisitedIn (targetIDs (edges g) \<union> targetIDs (edge # rest)) visited"
  proof (rule unvisitedIn_mono)
    show "finite (targetIDs (edges g) \<union> targetIDs (edge # rest))" by (simp add: targetIDs_def)
    show "targetIDs (edges g) \<union> targetIDs rest \<subseteq> targetIDs (edges g) \<union> targetIDs (edge # rest)"
      by (auto simp: targetIDs_def)
    fix x assume "visited x"
    from hasCycle_visited_mono(1)[OF 4(5) _ this, of x1 v r] 4(2,3) x2a show "v x" by simp
  qed
  with x2a show ?case by auto
next
  case (5 g edge rest visited recStack)
  have "unvisitedIn (targetIDs (edges g) \<union> targetIDs rest) visited
          \<le> unvisitedIn (targetIDs (edges g) \<union> targetIDs (edge # rest)) visited"
    by (rule unvisitedIn_mono) (auto simp: targetIDs_def)
  then show ?case by auto
qed




declare hasCycleDFS.simps [simp del]

fun hasCycleNodes ::
  "Graph \<Rightarrow> string list \<Rightarrow> (string \<Rightarrow> bool) \<times> (string \<Rightarrow> bool) \<Rightarrow> bool option" where
  "hasCycleNodes g [] (visited, recStack) = Some False"
| "hasCycleNodes g (nodeID # rest) (visited, recStack) =
     (if \<not> visited nodeID then
        (case hasCycleDFS g nodeID (visited, recStack) of
           None \<Rightarrow> None
         | Some (True, st) \<Rightarrow> Some True
         | Some (False, st) \<Rightarrow> hasCycleNodes g rest st)
      else hasCycleNodes g rest (visited, recStack))"

definition HasCycle :: "Graph \<Rightarrow> bool option" where
  "HasCycle g = hasCycleNodes g (map fst (nodes g)) (\<lambda>k. False, \<lambda>k. False)"

subsection \<open>TopologicalSort\<close>

text \<open>
  The map \<open>inDegree\<close> is ranged over, so it is a list of pairs; reading a key that is not
  in a Go map of integers gives 0.
\<close>

definition degreeOf :: "(string \<times> int) list \<Rightarrow> string \<Rightarrow> int" where
  "degreeOf inDegree k = (case map_of inDegree k of Some d \<Rightarrow> d | None \<Rightarrow> 0)"

definition countInDegrees :: "Graph \<Rightarrow> (string \<times> int) list" where
  "countInDegrees g =
     fold (\<lambda>edge inDegree.
             AList.update (ID (To edge)) (degreeOf inDegree (ID (To edge)) + 1) inDegree)
       (edges g) (map (\<lambda>(nodeID, node). (nodeID, 0)) (nodes g))"

fun zeroDegreeQueue :: "Graph \<Rightarrow> (string \<times> int) list \<Rightarrow> Node list option" where
  "zeroDegreeQueue g [] = Some []"
| "zeroDegreeQueue g ((nodeID, degree) # rest) =
     (if degree = 0 then
        (case GetNode g nodeID of
           None \<Rightarrow> None
         | Some node \<Rightarrow> map_option (\<lambda>queue. node # queue) (zeroDegreeQueue g rest))
      else zeroDegreeQueue g rest)"

fun relaxEdges ::
  "Edge list \<Rightarrow> (string \<times> int) list \<times> Node list \<Rightarrow> (string \<times> int) list \<times> Node list" where
  "relaxEdges [] (inDegree, queue) = (inDegree, queue)"
| "relaxEdges (edge # rest) (inDegree, queue) =
     (let inDegree = AList.update (ID (To edge)) (degreeOf inDegree (ID (To edge)) - 1) inDegree
      in relaxEdges rest
           (inDegree, if degreeOf inDegree (ID (To edge)) = 0 then queue @ [To edge] else queue))"

text \<open>
  The loop \<open>for len(queue) > 0\<close> ends: a step takes one node from the queue, and an edge
  puts a node into the queue only when it brings the in-degree of the node from 1 to 0.
\<close>

definition positiveIn :: "Graph \<Rightarrow> (string \<times> int) list \<Rightarrow> nat" where
  "positiveIn g inDegree = card {k \<in> targetIDs (edges g). degreeOf inDegree k > 0}"

lemma degreeOf_update:
  "degreeOf (AList.update k v d) k' = (if k' = k then v else degreeOf d k')"
  by (simp add: degreeOf_def update_conv')

lemma relaxEdges_measure:
  assumes "set es \<subseteq> set (edges g)" "relaxEdges es (d, q) = (d', q')"
  shows "length q' + positiveIn g d' \<le> length q + positiveIn g d"
  using assms
proof (induction es arbitrary: d q)
  case Nil
  then show ?case by simp
next
  case (Cons e es)
  let ?t = "ID (To e)"
  let ?d1 = "AList.update ?t (degreeOf d ?t - 1) d"
  let ?q1 = "if degreeOf ?d1 ?t = 0 then q @ [To e] else q"
  from Cons.prems have sub: "set es \<subseteq> set (edges g)" and t: "?t \<in> targetIDs (edges g)"
    and run: "relaxEdges es (?d1, ?q1) = (d', q')"
    by (auto simp: targetIDs_def Let_def)
  have fin: "finite (targetIDs (edges g))" by (simp add: targetIDs_def)
  have le: "degreeOf ?d1 k \<le> degreeOf d k" for k
    by (simp add: degreeOf_update)
  have sub1: "{k \<in> targetIDs (edges g). degreeOf ?d1 k > 0} \<subseteq> {k \<in> targetIDs (edges g). degreeOf d k > 0}"
  proof
    fix k assume "k \<in> {k \<in> targetIDs (edges g). degreeOf ?d1 k > 0}"
    then have "k \<in> targetIDs (edges g)" "degreeOf ?d1 k > 0" by simp_all
    with le[of k] show "k \<in> {k \<in> targetIDs (edges g). degreeOf d k > 0}" by simp
  qed
  have fin2: "finite {k \<in> targetIDs (edges g). degreeOf d k > 0}" using fin by simp
  have step: "length ?q1 + positiveIn g ?d1 \<le> length q + positiveIn g d"
  proof (cases "degreeOf ?d1 ?t = 0")
    case True
    then have d1: "degreeOf d ?t = 1" by (simp add: degreeOf_update)
    have "?t \<in> {k \<in> targetIDs (edges g). degreeOf d k > 0}" using t d1 by simp
    moreover have "?t \<notin> {k \<in> targetIDs (edges g). degreeOf ?d1 k > 0}" using True by simp
    ultimately have "{k \<in> targetIDs (edges g). degreeOf ?d1 k > 0} \<subset> {k \<in> targetIDs (edges g). degreeOf d k > 0}"
      using sub1 by blast
    from psubset_card_mono[OF fin2 this] have "positiveIn g ?d1 < positiveIn g d"
      unfolding positiveIn_def .
    with True show ?thesis by simp
  next
    case False
    from card_mono[OF fin2 sub1] have "positiveIn g ?d1 \<le> positiveIn g d"
      unfolding positiveIn_def .
    with False show ?thesis by simp
  qed
  from Cons.IH[OF sub run] step show ?case by linarith
qed

function kahnLoop ::
  "Graph \<Rightarrow> Node list \<Rightarrow> (string \<times> int) list \<Rightarrow> Node list \<Rightarrow> Node list" where
  "kahnLoop g [] inDegree sortedNodes = sortedNodes"
| "kahnLoop g (node # queue) inDegree sortedNodes =
     (case relaxEdges (GetOutgoingEdges g node) (inDegree, queue) of
        (inDegree, queue) \<Rightarrow> kahnLoop g queue inDegree (sortedNodes @ [node]))"
  by pat_completeness auto
termination
proof (relation "measure (\<lambda>(g, queue, inDegree, sortedNodes). length queue + positiveIn g inDegree)",
       goal_cases)
  case 1
  show ?case by simp
next
  case (2 g node queue inDegree sortedNodes x y)
  have "set (GetOutgoingEdges g node) \<subseteq> set (edges g)" by (auto simp: GetOutgoingEdges_def)
  from relaxEdges_measure[OF this 2[symmetric]] show ?case by simp
qed

text \<open>
  \<open>TopologicalSort\<close> returns the slice and the error; the error of a graph with a cycle
  is \<open>CyclicGraph\<close>, and the slice is \<open>nil\<close> then. A key of \<open>inDegree\<close> with degree 0 is a
  key of \<open>nodes\<close>, so \<open>GetNode\<close> finds it; the model has \<open>None\<close> where it would not. The
  function does not write to the graph, so the graph is not part of the result.
\<close>

definition TopologicalSort :: "Graph \<Rightarrow> (Node list \<times> error option) option" where
  "TopologicalSort g =
     (case HasCycle g of
        None \<Rightarrow> None
      | Some True \<Rightarrow> Some ([], Some CyclicGraph)
      | Some False \<Rightarrow>
          (let inDegree = countInDegrees g
           in case zeroDegreeQueue g inDegree of
                None \<Rightarrow> None
              | Some queue \<Rightarrow> Some (kahnLoop g queue inDegree [], None)))"

subsection \<open>FindAllPaths\<close>

text \<open>
  \<open>findPathsDFS\<close>, with \<open>findPathsEdges\<close> for its loop over the outgoing edges. The map
  \<open>visited\<close> and the slice \<open>*paths\<close> are shared by all the recursive calls, so they are
  passed on and returned; \<open>currentPath\<close> is a slice header passed by value, and every path
  is copied before it is stored.
\<close>

function findPathsDFS ::
  "Graph \<Rightarrow> Node \<Rightarrow> string \<Rightarrow> int \<Rightarrow> Node list \<Rightarrow> (string \<Rightarrow> bool) \<times> Node list list
     \<Rightarrow> (string \<Rightarrow> bool) \<times> Node list list"
and findPathsEdges ::
  "Graph \<Rightarrow> Edge list \<Rightarrow> string \<Rightarrow> int \<Rightarrow> Node list \<Rightarrow> (string \<Rightarrow> bool) \<times> Node list list
     \<Rightarrow> (string \<Rightarrow> bool) \<times> Node list list"
where
  "findPathsDFS g current endID maxDepth currentPath (visited, paths) =
     (if int (length currentPath) > maxDepth then (visited, paths)
      else
        (let currentPath = currentPath @ [current];
             visited = visited(ID current := True);
             (visited, paths) =
               (if ID current = endID then (visited, paths @ [currentPath])
                else findPathsEdges g (GetOutgoingEdges g current) endID maxDepth currentPath
                       (visited, paths))
         in (visited(ID current := False), paths)))"
| "findPathsEdges g [] endID maxDepth currentPath (visited, paths) = (visited, paths)"
| "findPathsEdges g (edge # rest) endID maxDepth currentPath (visited, paths) =
     findPathsEdges g rest endID maxDepth currentPath
       (if \<not> visited (ID (To edge))
        then findPathsDFS g (To edge) endID maxDepth currentPath (visited, paths)
        else (visited, paths))"
  by pat_completeness auto
termination
  by (relation "measures
        [\<lambda>x. case x of Inl (g, cur, e, maxDepth, cp, st) \<Rightarrow> nat (maxDepth + 1 - int (length cp))
                      | Inr (g, es, e, maxDepth, cp, st) \<Rightarrow> nat (maxDepth + 1 - int (length cp)),
         \<lambda>x. case x of Inl (g, cur, e, maxDepth, cp, st) \<Rightarrow> 0
                      | Inr (g, es, e, maxDepth, cp, st) \<Rightarrow> length es + 1]")
     auto

definition FindAllPaths :: "Graph \<Rightarrow> string \<Rightarrow> string \<Rightarrow> int \<Rightarrow> Node list list" where
  "FindAllPaths g startID endID maxDepth =
     (case GetNode g startID of
        None \<Rightarrow> []
      | Some start \<Rightarrow> snd (findPathsDFS g start endID maxDepth [] (\<lambda>k. False, [])))"



declare findPathsDFS.simps [simp del]

section \<open>Vocabulary of the statements\<close>

definition epKey :: "Endpoint \<Rightarrow> string" where
  "epKey ep = key2 (Path ep) (Method ep)"

text \<open>The key under which \<open>calculateDownstreamCosts\<close> marks the target of an entry.\<close>

definition depKeyOf :: "DownstreamCost \<Rightarrow> string" where
  "depKeyOf dc = key2 (DownstreamCost_Service dc) (DownstreamCost_Endpoint dc)"

text \<open>
  An endpoint has no matching metrics entry: the service has no metrics, or they have no
  entry under the key of the endpoint, or the entry has no resource data.
\<close>

definition noMatchingMetrics :: "ServiceMetrics option \<Rightarrow> Endpoint \<Rightarrow> bool" where
  "noMatchingMetrics serviceMetrics endpoint =
     (case serviceMetrics of
        None \<Rightarrow> True
      | Some sm \<Rightarrow>
          (case ServiceMetrics_Endpoints sm (key2 (Path endpoint) (Method endpoint)) of
             None \<Rightarrow> True
           | Some endpointMetrics \<Rightarrow> Resource endpointMetrics = None))"

text \<open>The invariants of an endpoint cost after the first and after the second loop.\<close>

definition directOK :: "EndpointCost \<Rightarrow> bool" where
  "directOK ec =
     (case EndpointCost_CostBreakdown ec of
        None \<Rightarrow> DirectCost ec = 0
      | Some cb \<Rightarrow> DirectCost ec = CPUCost cb + MemoryCost cb + NetworkCost cb + DiskCost cb + RequestCost cb)"

definition finalOK :: "EndpointCost \<Rightarrow> bool" where
  "finalOK ec =
     (directOK ec \<and> TotalCost ec = DirectCost ec + sumDownstream (DownstreamCosts ec)
      \<and> (case EndpointCost_CostBreakdown ec of
            None \<Rightarrow> True
          | Some cb \<Rightarrow> DownstreamTotal cb = sumDownstream (DownstreamCosts ec)
                       \<and> Total cb = CPUCost cb + MemoryCost cb + NetworkCost cb + DiskCost cb
                                      + RequestCost cb + DownstreamTotal cb))"

definition serviceOK :: "ServiceCost \<Rightarrow> bool" where
  "serviceOK sc = (\<forall>(k, ec) \<in> set (ServiceCost_Endpoints sc). finalOK ec)"

definition breakdownSums :: "CostBreakdown \<Rightarrow> bool" where
  "breakdownSums cb =
     (Total cb = CPUCost cb + MemoryCost cb + NetworkCost cb + DiskCost cb + RequestCost cb
                   + DownstreamTotal cb)"

definition serviceTotals :: "(string \<times> ServiceCost) list \<Rightarrow> real" where
  "serviceTotals svcs = sum_list (map (\<lambda>(k, sc). ServiceCost_TotalCost sc) svcs)"

definition isReviewDependencyChain :: "Recommendation \<Rightarrow> bool" where
  "isReviewDependencyChain r = (case r of ReviewDependencyChain s e \<Rightarrow> True | _ \<Rightarrow> False)"

definition reviewRule :: "EndpointCost \<Rightarrow> bool" where
  "reviewRule ec = (DirectCost ec > 0 \<and> sumDownstream (DownstreamCosts ec) / DirectCost ec > 5)"

definition allEndpointCosts :: "CostReport \<Rightarrow> EndpointCost list" where
  "allEndpointCosts report =
     concat (map (\<lambda>(k, sc). map snd (ServiceCost_Endpoints sc)) (CostReport_Services report))"


section \<open>Example inputs\<close>

text \<open>The prices of \<open>TestNewCostBreakdown\<close> (cost\_test.go) and a time range of one hour.\<close>

definition exampleCostModel :: CostModel where
  "exampleCostModel =
     \<lparr>CPUCostPerCoreHour = 0.05, MemoryCostPerGBHour = 0.01, NetworkCostPerGB = 0.09,
      DiskCostPerGBHour = 0, CostModel_RequestCost = 0.0000002, Provider = ''aws'',
      Region = ''us-east-1''\<rparr>"

definition exampleCalculator :: Calculator where
  "exampleCalculator = \<lparr>costModel = exampleCostModel\<rparr>"

definition exampleTimeRange :: TimeRange where
  "exampleTimeRange = \<lparr>Start = 0, End = 3600000000000\<rparr>"

definition testResource :: ResourceMetrics where
  "testResource = \<lparr>CPUCores = 2, MemoryMB = 2048, NetworkInMB = 100, NetworkOutMB = 50,
                    DiskReadMB = 0, DiskWriteMB = 0\<rparr>"

definition testPerformance :: PerformanceMetrics where
  "testPerformance = \<lparr>RequestRate = 100, ErrorRate = 0\<rparr>"

definition testEndpoint :: Endpoint where
  "testEndpoint = \<lparr>Path = ''/api/test'', Method = ''GET'', Endpoint_Service = Some ''test-service''\<rparr>"

definition testServiceMetrics :: ServiceMetrics where
  "testServiceMetrics =
     \<lparr>ServiceMetrics_Endpoints =
        [''/api/test:GET'' \<mapsto> \<lparr>Resource = Some testResource, Performance = Some testPerformance\<rparr>],
      Aggregate = None\<rparr>"

definition cpuOnly :: "real \<Rightarrow> ResourceMetrics" where
  "cpuOnly cores = \<lparr>CPUCores = cores, MemoryMB = 0, NetworkInMB = 0, NetworkOutMB = 0,
                    DiskReadMB = 0, DiskWriteMB = 0\<rparr>"

text \<open>One service whose endpoint \<open>/home\<close> calls its endpoint \<open>/cart\<close> three times.\<close>

definition homeEndpoint :: Endpoint where
  "homeEndpoint = \<lparr>Path = ''/home'', Method = ''GET'', Endpoint_Service = Some ''shop''\<rparr>"

definition cartEndpoint :: Endpoint where
  "cartEndpoint = \<lparr>Path = ''/cart'', Method = ''GET'', Endpoint_Service = Some ''shop''\<rparr>"

definition exampleCallGraph :: CallGraph where
  "exampleCallGraph =
     \<lparr>CallGraph_Services =
        [(''shop'', \<lparr>Name = ''shop'', Service_Endpoints = [homeEndpoint, cartEndpoint]\<rparr>)],
      Dependencies =
        [\<lparr>FromService = ''shop'', FromEndpoint = ''/home'', ToService = ''shop'',
          ToEndpoint = ''/cart'', CallType = ''internal'', Weight = 3\<rparr>]\<rparr>"

definition exampleMetrics :: MetricsSnapshot where
  "exampleMetrics =
     \<lparr>MetricsSnapshot_Services =
        [''shop'' \<mapsto>
           \<lparr>ServiceMetrics_Endpoints =
              [''/home:GET'' \<mapsto> \<lparr>Resource = Some (cpuOnly 1), Performance = None\<rparr>,
               ''/cart:GET'' \<mapsto> \<lparr>Resource = Some (cpuOnly 2), Performance = None\<rparr>],
            Aggregate = None\<rparr>],
      MetricsSnapshot_TimeRange = exampleTimeRange\<rparr>"

text \<open>The report that \<open>CalculateCosts\<close> returns on this input.\<close>

definition exampleReport :: CostReport where
  "exampleReport =
     \<lparr>CostReport_Services =
        [(''shop'',
          \<lparr>ServiceName = ''shop'',
           ServiceCost_Endpoints =
             [(''/home:GET'',
               \<lparr>EndpointCost_Service = ''shop'', EndpointCost_Endpoint = ''/home'',
                EndpointCost_Method = ''GET'', DirectCost = 0.05,
                DownstreamCosts =
                  [\<lparr>DownstreamCost_Service = ''shop'', DownstreamCost_Endpoint = ''/cart'',
                    Cost = 0.3, CallsPerRequest = 3, Depth = 1\<rparr>],
                TotalCost = 0.35, CostPerRequest = 0, RequestCount = 0,
                EndpointCost_CostBreakdown =
                  Some \<lparr>CPUCost = 0.05, MemoryCost = 0, NetworkCost = 0, DiskCost = 0,
                        RequestCost = 0, DownstreamTotal = 0.3, Total = 0.35, Details = []\<rparr>\<rparr>),
              (''/cart:GET'',
               \<lparr>EndpointCost_Service = ''shop'', EndpointCost_Endpoint = ''/cart'',
                EndpointCost_Method = ''GET'', DirectCost = 0.1, DownstreamCosts = [],
                TotalCost = 0.1, CostPerRequest = 0, RequestCount = 0,
                EndpointCost_CostBreakdown =
                  Some \<lparr>CPUCost = 0.1, MemoryCost = 0, NetworkCost = 0, DiskCost = 0,
                        RequestCost = 0, DownstreamTotal = 0, Total = 0.1, Details = []\<rparr>\<rparr>)],
           ServiceCost_TotalCost = 0.45, ServiceCost_DirectCost = 0.15,
           AttributedCost = 0.3\<rparr>)],
      CostReport_TotalCost = 0.45,
      CostReport_TimeRange = exampleTimeRange,
      CostReport_CostModel = exampleCostModel,
      TopCostly =
        [\<lparr>EndpointCost_Service = ''shop'', EndpointCost_Endpoint = ''/home'',
          EndpointCost_Method = ''GET'', DirectCost = 0.05,
          DownstreamCosts =
            [\<lparr>DownstreamCost_Service = ''shop'', DownstreamCost_Endpoint = ''/cart'',
              Cost = 0.3, CallsPerRequest = 3, Depth = 1\<rparr>],
          TotalCost = 0.35, CostPerRequest = 0, RequestCount = 0,
          EndpointCost_CostBreakdown =
            Some \<lparr>CPUCost = 0.05, MemoryCost = 0, NetworkCost = 0, DiskCost = 0,
                  RequestCost = 0, DownstreamTotal = 0.3, Total = 0.35, Details = []\<rparr>\<rparr>,
         \<lparr>EndpointCost_Service = ''shop'', EndpointCost_Endpoint = ''/cart'',
          EndpointCost_Method = ''GET'', DirectCost = 0.1, DownstreamCosts = [],
          TotalCost = 0.1, CostPerRequest = 0, RequestCount = 0,
          EndpointCost_CostBreakdown =
            Some \<lparr>CPUCost = 0.1, MemoryCost = 0, NetworkCost = 0, DiskCost = 0,
                  RequestCost = 0, DownstreamTotal = 0, Total = 0.1, Details = []\<rparr>\<rparr>],
      Recommendations =
        [OptimizeHighestCost ''shop'' ''/home'' 0, ReviewDependencyChain ''shop'' ''/home'']\<rparr>"



text \<open>
  Two services: the endpoint \<open>/a\<close> of service \<open>a\<close> calls the endpoint \<open>/b\<close> of service
  \<open>b\<close> twice, and only \<open>/b\<close> has metrics (two cores, so a direct cost of 0.10).
\<close>

definition crossServiceCallGraph :: CallGraph where
  "crossServiceCallGraph =
     \<lparr>CallGraph_Services =
        [(''a'', \<lparr>Name = ''a'', Service_Endpoints =
            [\<lparr>Path = ''/a'', Method = ''GET'', Endpoint_Service = Some ''a''\<rparr>]\<rparr>),
         (''b'', \<lparr>Name = ''b'', Service_Endpoints =
            [\<lparr>Path = ''/b'', Method = ''GET'', Endpoint_Service = Some ''b''\<rparr>]\<rparr>)],
      Dependencies =
        [\<lparr>FromService = ''a'', FromEndpoint = ''/a'', ToService = ''b'',
          ToEndpoint = ''/b'', CallType = ''http'', Weight = 2\<rparr>]\<rparr>"

definition crossServiceMetrics :: MetricsSnapshot where
  "crossServiceMetrics =
     \<lparr>MetricsSnapshot_Services =
        [''b'' \<mapsto>
           \<lparr>ServiceMetrics_Endpoints =
              [''/b:GET'' \<mapsto> \<lparr>Resource = Some (cpuOnly 2), Performance = None\<rparr>],
            Aggregate = None\<rparr>],
      MetricsSnapshot_TimeRange = exampleTimeRange\<rparr>"

text \<open>What a report says about costs: per service and endpoint key, the direct cost and the costs of the downstream entries.\<close>

definition costSummary :: "CostReport \<Rightarrow> (string \<times> (string \<times> real \<times> real list) list) list" where
  "costSummary report =
     map (\<lambda>(k, sc). (k, map (\<lambda>(k', ec). (k', DirectCost ec, map Cost (DownstreamCosts ec)))
                          (ServiceCost_Endpoints sc)))
       (CostReport_Services report)"

text \<open>
  A cycle through the endpoint that is attributed: \<open>/home\<close> calls \<open>/cart\<close> and \<open>/pay\<close>, and
  \<open>/cart\<close> calls \<open>/home\<close>. The direct costs are 0.05, 0.10 and 0.20.
\<close>

definition payEndpoint :: Endpoint where
  "payEndpoint = \<lparr>Path = ''/pay'', Method = ''GET'', Endpoint_Service = Some ''shop''\<rparr>"

definition reentryCallGraph :: CallGraph where
  "reentryCallGraph =
     \<lparr>CallGraph_Services =
        [(''shop'', \<lparr>Name = ''shop'',
                    Service_Endpoints = [homeEndpoint, cartEndpoint, payEndpoint]\<rparr>)],
      Dependencies =
        [\<lparr>FromService = ''shop'', FromEndpoint = ''/home'', ToService = ''shop'',
          ToEndpoint = ''/cart'', CallType = ''internal'', Weight = 3\<rparr>,
         \<lparr>FromService = ''shop'', FromEndpoint = ''/cart'', ToService = ''shop'',
          ToEndpoint = ''/home'', CallType = ''internal'', Weight = 2\<rparr>,
         \<lparr>FromService = ''shop'', FromEndpoint = ''/home'', ToService = ''shop'',
          ToEndpoint = ''/pay'', CallType = ''internal'', Weight = 5\<rparr>]\<rparr>"

definition reentryMetrics :: MetricsSnapshot where
  "reentryMetrics =
     \<lparr>MetricsSnapshot_Services =
        [''shop'' \<mapsto>
           \<lparr>ServiceMetrics_Endpoints =
              [''/home:GET'' \<mapsto> \<lparr>Resource = Some (cpuOnly 1), Performance = None\<rparr>,
               ''/cart:GET'' \<mapsto> \<lparr>Resource = Some (cpuOnly 2), Performance = None\<rparr>,
               ''/pay:GET'' \<mapsto> \<lparr>Resource = Some (cpuOnly 4), Performance = None\<rparr>],
            Aggregate = None\<rparr>],
      MetricsSnapshot_TimeRange = exampleTimeRange\<rparr>"

text \<open>
  The downstream entries of a report: per endpoint key, the target, the depth and the cost
  of every entry, in the order of the entries.
\<close>

definition downstreamSummary :: "CostReport \<Rightarrow> (string \<times> (string \<times> int \<times> real) list) list" where
  "downstreamSummary report =
     concat (map (\<lambda>(k, sc). map (\<lambda>(k', ec). (k', map (\<lambda>dc. (depKeyOf dc, Depth dc, Cost dc))
                                                    (DownstreamCosts ec)))
                              (ServiceCost_Endpoints sc))
               (CostReport_Services report))"

section \<open>Vocabulary of the statements on graphs\<close>

text \<open>
  A graph as \<open>AddNode\<close> and \<open>AddEdge\<close> build it when the ends of every edge are nodes of
  the graph (as the graph builder of the analyzer does): a node is stored under its own
  \<open>ID\<close>, and the ends of an edge are the nodes stored under their \<open>ID\<close>s.
\<close>

definition wfGraph :: "Graph \<Rightarrow> bool" where
  "wfGraph g =
     (distinct (map fst (nodes g))
      \<and> list_all (\<lambda>(k, node). ID node = k) (nodes g)
      \<and> list_all (\<lambda>edge. GetNode g (ID (From edge)) = Some (From edge)
                         \<and> GetNode g (ID (To edge)) = Some (To edge)) (edges g))"

text \<open>The edges as a relation on node identifiers; a graph is cyclic when a node reaches itself.\<close>

definition edgeRel :: "Graph \<Rightarrow> (string \<times> string) set" where
  "edgeRel g = (\<lambda>edge. (ID (From edge), ID (To edge))) ` set (edges g)"

definition cyclic :: "Graph \<Rightarrow> bool" where
  "cyclic g = (\<exists>x. (x, x) \<in> (edgeRel g)\<^sup>+)"

text \<open>
  The invariant of the depth-first search: the nodes on the recursion stack are visited,
  and the visited nodes off the stack are closed under the edges and on no cycle.
\<close>

definition dfsInv :: "Graph \<Rightarrow> (string \<Rightarrow> bool) \<Rightarrow> (string \<Rightarrow> bool) \<Rightarrow> bool" where
  "dfsInv g visited recStack =
     ((\<forall>x. recStack x \<longrightarrow> visited x)
      \<and> (\<forall>x. visited x \<longrightarrow> x \<in> fst ` set (nodes g))
      \<and> (\<forall>x y. visited x \<and> \<not> recStack x \<and> (x, y) \<in> edgeRel g \<longrightarrow> visited y \<and> \<not> recStack y)
      \<and> (\<forall>x. visited x \<and> \<not> recStack x \<longrightarrow> (x, x) \<notin> (edgeRel g)\<^sup>+))"

text \<open>The result of a call.\<close>

definition dfsPost ::
  "Graph \<Rightarrow> (string \<Rightarrow> bool) \<Rightarrow> (string \<Rightarrow> bool)
     \<Rightarrow> (bool \<times> (string \<Rightarrow> bool) \<times> (string \<Rightarrow> bool)) option \<Rightarrow> bool" where
  "dfsPost g visited recStack res =
     (case res of
        None \<Rightarrow> False
      | Some (b, visited', recStack') \<Rightarrow>
          if b then cyclic g
          else recStack' = recStack \<and> (\<forall>x. visited x \<longrightarrow> visited' x) \<and> dfsInv g visited' recStack')"

text \<open>
  The invariant of the loop of \<open>TopologicalSort\<close>, inside the loop over the outgoing edges
  \<open>es\<close> of the node taken last: the in-degree of a node counts its edges from nodes not
  yet sorted, and the edges of \<open>es\<close> still to come; the nodes sorted or queued are those of
  in-degree 0; every node sorted comes after the sources of its edges.
\<close>

definition nodeIDs :: "Graph \<Rightarrow> string set" where
  "nodeIDs g = fst ` set (nodes g)"

definition remainingIn :: "Graph \<Rightarrow> string set \<Rightarrow> string \<Rightarrow> nat" where
  "remainingIn g S k = length (filter (\<lambda>e. ID (To e) = k \<and> ID (From e) \<notin> S) (edges g))"

definition countTo :: "Edge list \<Rightarrow> string \<Rightarrow> nat" where
  "countTo es k = length (filter (\<lambda>e. ID (To e) = k) es)"

definition ordered :: "Graph \<Rightarrow> Node list \<Rightarrow> bool" where
  "ordered g xs = (\<forall>ys n zs. xs = ys @ n # zs \<longrightarrow>
                     (\<forall>e \<in> set (edges g). ID (To e) = ID n \<longrightarrow> ID (From e) \<in> ID ` set ys))"

definition kahnMid ::
  "Graph \<Rightarrow> Edge list \<Rightarrow> Node list \<Rightarrow> (string \<times> int) list \<Rightarrow> Node list \<Rightarrow> bool" where
  "kahnMid g es queue d srt =
     (distinct (map ID (srt @ queue))
      \<and> (\<forall>n \<in> set (srt @ queue). GetNode g (ID n) = Some n)
      \<and> (\<forall>k \<in> nodeIDs g. degreeOf d k = int (remainingIn g (ID ` set srt) k) + int (countTo es k))
      \<and> (\<forall>k \<in> nodeIDs g. (k \<in> ID ` set (srt @ queue)) = (degreeOf d k = 0))
      \<and> ordered g srt)"

text \<open>
  A path follows the edges when each of its nodes is the target of an edge that starts
  at the node before it. \<open>pathsAvoiding\<close> are the simple paths from \<open>current\<close> to \<open>endID\<close>
  of at most \<open>k\<close> nodes that avoid the nodes marked in \<open>visited\<close>.
\<close>

fun followsEdges :: "Graph \<Rightarrow> Node list \<Rightarrow> bool" where
  "followsEdges g [] = True"
| "followsEdges g [n] = True"
| "followsEdges g (n # m # rest) =
     (list_ex (\<lambda>edge. ID (From edge) = ID n \<and> To edge = m) (edges g) \<and> followsEdges g (m # rest))"

definition pathsAvoiding ::
  "Graph \<Rightarrow> (string \<Rightarrow> bool) \<Rightarrow> Node \<Rightarrow> string \<Rightarrow> int \<Rightarrow> Node list set" where
  "pathsAvoiding g visited current endID k =
     {q. q \<noteq> [] \<and> hd q = current \<and> followsEdges g q \<and> distinct (map ID q)
         \<and> list_all (\<lambda>n. \<not> visited (ID n)) q \<and> ID (last q) = endID \<and> int (length q) \<le> k}"

subsection \<open>Example graphs\<close>

text \<open>The graphs of \<open>TestTopologicalSort\<close>, \<open>TestTopologicalSortWithCycle\<close> and \<open>TestFindAllPaths\<close>.\<close>

definition node1 :: Node where
  "node1 = \<lparr>ID = ''node1'', Node_Service = ''service1'', Node_Endpoint = ''/api/test'',
            Node_Method = ''GET''\<rparr>"

definition node2 :: Node where
  "node2 = \<lparr>ID = ''node2'', Node_Service = ''service2'', Node_Endpoint = ''/api/other'',
            Node_Method = ''GET''\<rparr>"

definition node3 :: Node where
  "node3 = \<lparr>ID = ''node3'', Node_Service = ''service3'', Node_Endpoint = ''/api/third'',
            Node_Method = ''GET''\<rparr>"

definition node4 :: Node where
  "node4 = \<lparr>ID = ''node4'', Node_Service = ''service4'', Node_Endpoint = ''/api/fourth'',
            Node_Method = ''GET''\<rparr>"

definition addNodes :: "Node list \<Rightarrow> Graph \<Rightarrow> Graph" where
  "addNodes ns g =
     fold (\<lambda>n g. snd (AddNode g (ID n) (Node_Service n) (Node_Endpoint n) (Node_Method n))) ns g"

definition addEdges :: "(Node \<times> Node) list \<Rightarrow> Graph \<Rightarrow> Graph" where
  "addEdges es g = fold (\<lambda>(a, b) g. snd (AddEdge g a b 1 None)) es g"

definition chainGraph :: Graph where
  "chainGraph = addEdges [(node1, node2), (node2, node3)] (addNodes [node1, node2, node3] NewGraph)"

definition loopGraph :: Graph where
  "loopGraph = addEdges [(node1, node2), (node2, node1)] (addNodes [node1, node2] NewGraph)"

definition diamondGraph :: Graph where
  "diamondGraph =
     addEdges [(node1, node2), (node2, node4), (node1, node3), (node3, node4)]
       (addNodes [node1, node2, node3, node4] NewGraph)"

text \<open>A graph with an edge to a node that was never added to it.\<close>

definition danglingGraph :: Graph where
  "danglingGraph = addEdges [(node1, node2)] (addNodes [node1] NewGraph)"


section \<open>Properties of the cost engine\<close>

lemmas eval_defs = exampleCostModel_def exampleCalculator_def exampleTimeRange_def cpuOnly_def
  homeEndpoint_def cartEndpoint_def
  exampleCallGraph_def exampleMetrics_def CalculateCosts_def Let_def calculateEndpointCost_def
  NewCostBreakdown_def key2_def GetServiceMetrics_def GetService_def GetEndpoint_def
  finalizeEndpointCost_def sumDownstream_def totalServiceCost_def AddServiceCost_def
  findTopCostlyEndpoints_def calculateDownstreamCosts.simps sortOuter.simps sortInner.simps
  generateRecommendations_def reviewRecommendation_def NewCostReport_def Sub_def Hours_def

lemma exampleReport_eval:
  "CalculateCosts exampleCalculator exampleCallGraph exampleMetrics exampleTimeRange
     = Some (exampleReport, None)"
  by (simp add: eval_defs exampleReport_def)

subsection \<open>Direct costs\<close>

text \<open>
  C2. For an endpoint whose metrics entry has resource data, \<open>calculateEndpointCost\<close>
  returns a breakdown with
  cpuCost = cpuCores * pricePerCoreHour * H,
  memoryCost = (memoryMB / 1024) * pricePerGBHour * H,
  networkCost = ((networkInMB + networkOutMB) / 1024) * pricePerGB (no factor H),
  diskCost = ((diskReadMB + diskWriteMB) / 1024) * pricePerGBHour * H,
  requestCost = requestRate * pricePerRequest * H * 3600 (the rate of an entry without
  performance data counting as zero), and a total that is their sum, which is the direct
  cost. On the numbers of the scenario (2 cores at 0.05, 2048 MB at 0.01, 100 + 50 MB at
  0.09, 100 requests per second at 0.0000002, one hour) the costs are 0.10, 0.02, about
  0.013184 and 0.072.
\<close>

theorem direct_cost_formula:
  assumes "Endpoint_Service endpoint = Some s"
    and "ServiceMetrics_Endpoints sm (key2 (Path endpoint) (Method endpoint)) = Some em"
    and "Resource em = Some m"
  shows "(\<exists>ec cb. calculateEndpointCost c endpoint (Some sm) H = Some ec
           \<and> EndpointCost_CostBreakdown ec = Some cb
           \<and> DirectCost ec = Total cb
           \<and> CPUCost cb = CPUCores m * CPUCostPerCoreHour (costModel c) * H
           \<and> MemoryCost cb = (MemoryMB m / 1024) * MemoryCostPerGBHour (costModel c) * H
           \<and> NetworkCost cb = ((NetworkInMB m + NetworkOutMB m) / 1024) * NetworkCostPerGB (costModel c)
           \<and> DiskCost cb = ((DiskReadMB m + DiskWriteMB m) / 1024) * DiskCostPerGBHour (costModel c) * H
           \<and> RequestCost cb =
               (case Performance em of None \<Rightarrow> 0 | Some p \<Rightarrow> RequestRate p)
                 * CostModel_RequestCost (costModel c) * H * 3600
           \<and> Total cb = CPUCost cb + MemoryCost cb + NetworkCost cb + DiskCost cb + RequestCost cb)
       \<and> (let cb = NewCostBreakdown (Some testResource) (Some testPerformance)
                      (Some exampleCostModel) 1
          in CPUCost cb = 0.10 \<and> MemoryCost cb = 0.02 \<and> \<bar>NetworkCost cb - 0.013184\<bar> < 0.000001
             \<and> RequestCost cb = 0.072)"
  using assms
  by (auto simp: calculateEndpointCost_def NewCostBreakdown_def Let_def testResource_def
        testPerformance_def exampleCostModel_def split: option.splits)

theorem direct_cost_formula_witness:
  "Endpoint_Service testEndpoint = Some ''test-service''
   \<and> ServiceMetrics_Endpoints testServiceMetrics (key2 (Path testEndpoint) (Method testEndpoint))
       = Some \<lparr>Resource = Some testResource, Performance = Some testPerformance\<rparr>
   \<and> map_option (\<lambda>ec. (DirectCost ec, map_option CPUCost (EndpointCost_CostBreakdown ec)))
        (calculateEndpointCost exampleCalculator testEndpoint (Some testServiceMetrics) 1)
       = Some (0.10 + 0.02 + 0.01318359375 + 0.072, Some 0.10)"
  using direct_cost_formula[of testEndpoint "''test-service''" testServiceMetrics
          "\<lparr>Resource = Some testResource, Performance = Some testPerformance\<rparr>" testResource
          exampleCalculator 1]
  by (simp add: testEndpoint_def testServiceMetrics_def testResource_def testPerformance_def
        eval_defs)

text \<open>
  C7, as the claim states it, fails: an endpoint without a matching metrics entry gets no
  cost breakdown at all (the pointer stays \<open>nil\<close>), not a breakdown of zeros.
\<close>

theorem missing_metrics_breakdown_counterexample:
  "map_option EndpointCost_CostBreakdown (calculateEndpointCost exampleCalculator homeEndpoint None 1)
     = Some None"
  by (simp add: eval_defs)

text \<open>
  C7, amended. For an endpoint (whose back-reference to its service is set) without a
  matching metrics entry, that is without service metrics, without an entry under its key
  or without resource data, \<open>calculateEndpointCost\<close> does not fail and returns an endpoint
  cost with a direct cost of zero, a request count of zero and no cost breakdown.
\<close>

theorem missing_metrics_zero_direct_cost:
  assumes "Endpoint_Service endpoint = Some s"
    and "noMatchingMetrics serviceMetrics endpoint"
  shows "calculateEndpointCost c endpoint serviceMetrics H =
           Some \<lparr>EndpointCost_Service = s, EndpointCost_Endpoint = Path endpoint,
                 EndpointCost_Method = Method endpoint, DirectCost = 0, DownstreamCosts = [],
                 TotalCost = 0, CostPerRequest = 0, RequestCount = 0,
                 EndpointCost_CostBreakdown = None\<rparr>"
  using assms
  by (auto simp: calculateEndpointCost_def noMatchingMetrics_def Let_def split: option.splits)

theorem missing_metrics_zero_direct_cost_witness:
  "Endpoint_Service homeEndpoint = Some ''shop''
   \<and> noMatchingMetrics (Some \<lparr>ServiceMetrics_Endpoints = Map.empty, Aggregate = None\<rparr>) homeEndpoint
   \<and> calculateEndpointCost exampleCalculator homeEndpoint
        (Some \<lparr>ServiceMetrics_Endpoints = Map.empty, Aggregate = None\<rparr>) 1 =
       Some \<lparr>EndpointCost_Service = ''shop'', EndpointCost_Endpoint = ''/home'',
             EndpointCost_Method = ''GET'', DirectCost = 0, DownstreamCosts = [],
             TotalCost = 0, CostPerRequest = 0, RequestCount = 0,
             EndpointCost_CostBreakdown = None\<rparr>"
  using missing_metrics_zero_direct_cost[of homeEndpoint "''shop''"
          "Some \<lparr>ServiceMetrics_Endpoints = Map.empty, Aggregate = None\<rparr>" exampleCalculator 1]
  by (simp add: homeEndpoint_def noMatchingMetrics_def)

subsection \<open>Downstream attribution\<close>

text \<open>
  C4 fails on the code, by a defect of the code. The claim is that the recursion never
  enters again a target that is on its current path. \<open>calculateDownstreamCosts\<close> marks in
  \<open>visited\<close> the target of a dependency, for the time of the recursive call into it, and
  \<open>CalculateCosts\<close> starts the walk of an endpoint with an empty \<open>visited\<close>: the endpoint
  that is being attributed, the first of the path, is never marked. So a dependency that
  leads back to it is not skipped. Here \<open>/home\<close> calls \<open>/cart\<close> (weight 3) and \<open>/pay\<close>
  (weight 5), and \<open>/cart\<close> calls \<open>/home\<close> (weight 2). In the attribution of \<open>/home\<close> the
  walk goes from \<open>/cart\<close> back into \<open>/home\<close>: \<open>/home\<close> gets an entry for itself at depth
  2 (its own direct cost 0.05, times 2, times 3), and its dependency \<open>/pay\<close> is attributed
  a second time from there, at depth 3. Only the third step, from \<open>/home\<close> to \<open>/cart\<close>
  again, is skipped. The same holds for \<open>/cart\<close>, which gets an entry for itself at
  depth 2.
\<close>

theorem attributed_endpoint_reentered:
  "map_option (\<lambda>(report, err). downstreamSummary report)
     (CalculateCosts exampleCalculator reentryCallGraph reentryMetrics exampleTimeRange)
     = Some [(''/home:GET'', [(''shop:/cart'', 1, 0.3), (''shop:/home'', 2, 0.3),
                              (''shop:/pay'', 3, 6), (''shop:/pay'', 1, 1)]),
             (''/cart:GET'', [(''shop:/home'', 1, 0.1), (''shop:/cart'', 2, 0.6),
                              (''shop:/pay'', 2, 2)]),
             (''/pay:GET'', [])]"
  by (simp add: eval_defs reentryCallGraph_def reentryMetrics_def payEndpoint_def
        downstreamSummary_def depKeyOf_def)

text \<open>
  C1 fails on the code, by a defect of the code. The claim is that the entry for a
  dependency costs the direct cost of the target endpoint times the weight. The code
  looks the direct cost up in the map of endpoint costs of the service it is working on
  (\<open>serviceCost.Endpoints\<close>, under the key of the target path and \<open>GET\<close>), so a target
  in another service is not found and costs zero. Here \<open>/a\<close> of service \<open>a\<close> calls \<open>/b\<close>
  of service \<open>b\<close> with weight 2, the direct cost of \<open>/b\<close> is 0.10, and the entry costs 0
  instead of 0.20.
\<close>

theorem cross_service_target_costs_zero:
  "map_option (\<lambda>(report, err). costSummary report)
     (CalculateCosts exampleCalculator crossServiceCallGraph crossServiceMetrics exampleTimeRange)
     = Some [(''a'', [(''/a:GET'', 0, [0])]), (''b'', [(''/b:GET'', 0.10, [])])]"
  by (simp add: eval_defs crossServiceCallGraph_def crossServiceMetrics_def costSummary_def)

subsection \<open>The report\<close>

lemma calculateEndpointCost_directOK:
  "calculateEndpointCost c ep sm H = Some ec \<Longrightarrow> directOK ec"
  by (auto simp: calculateEndpointCost_def directOK_def NewCostBreakdown_def Let_def
           split: option.splits)

lemma finalize_finalOK:
  "directOK ec \<Longrightarrow> finalOK (finalizeEndpointCost ec dcs)"
  by (auto simp: finalOK_def directOK_def finalizeEndpointCost_def Let_def split: option.splits)

lemma update_set_cases:
  "(k', v') \<in> set (AList.update k v al) \<Longrightarrow> (k', v') = (k, v) \<or> (k', v') \<in> set al"
  by (induction al) (auto split: if_splits)

lemma update_fresh_append:
  "k \<notin> fst ` set al \<Longrightarrow> AList.update k v al = al @ [(k, v)]"
  by (induction al) auto
lemma directCostLoop_inv:
  assumes "directCostLoop c sm H eps sc = Some sc'"
    and "distinct (map fst (ServiceCost_Endpoints sc))"
    and "\<forall>k ec. map_of (ServiceCost_Endpoints sc) k = Some ec \<longrightarrow> directOK ec"
  shows "distinct (map fst (ServiceCost_Endpoints sc'))
       \<and> (\<forall>k ec. map_of (ServiceCost_Endpoints sc') k = Some ec \<longrightarrow> directOK ec)
       \<and> fst ` set (ServiceCost_Endpoints sc') = fst ` set (ServiceCost_Endpoints sc) \<union> epKey ` set eps
       \<and> ServiceName sc' = ServiceName sc"
  using assms
proof (induction eps arbitrary: sc)
  case Nil
  then show ?case by simp
next
  case (Cons ep eps)
  from Cons.prems(1) obtain ec where
    ec: "calculateEndpointCost c ep sm H = Some ec"
    and rest: "directCostLoop c sm H eps
                 (sc\<lparr>ServiceCost_Endpoints := AList.update (epKey ep) ec (ServiceCost_Endpoints sc),
                     ServiceCost_DirectCost := ServiceCost_DirectCost sc + DirectCost ec\<rparr>) = Some sc'"
    by (auto simp: Let_def epKey_def split: option.splits)
  let ?sc1 = "sc\<lparr>ServiceCost_Endpoints := AList.update (epKey ep) ec (ServiceCost_Endpoints sc),
                     ServiceCost_DirectCost := ServiceCost_DirectCost sc + DirectCost ec\<rparr>"
  have d: "distinct (map fst (ServiceCost_Endpoints ?sc1))"
    using Cons.prems(2) by (simp add: distinct_update)
  have ok: "\<forall>k e. map_of (ServiceCost_Endpoints ?sc1) k = Some e \<longrightarrow> directOK e"
    using Cons.prems(3) calculateEndpointCost_directOK[OF ec]
    by (auto simp: update_conv')
  from Cons.IH[OF rest d ok] show ?case
    by (auto simp: dom_update image_iff)
qed

lemma attributedCostLoop_inv:
  assumes "attributedCostLoop c cg eps sc = Some sc'"
    and "distinct (map fst (ServiceCost_Endpoints sc))"
    and "\<forall>k ec. map_of (ServiceCost_Endpoints sc) k = Some ec \<longrightarrow> directOK ec \<and> (k \<in> S \<longrightarrow> finalOK ec)"
  shows "distinct (map fst (ServiceCost_Endpoints sc'))
       \<and> (\<forall>k ec. map_of (ServiceCost_Endpoints sc') k = Some ec
             \<longrightarrow> directOK ec \<and> (k \<in> S \<union> epKey ` set eps \<longrightarrow> finalOK ec))
       \<and> fst ` set (ServiceCost_Endpoints sc') = fst ` set (ServiceCost_Endpoints sc)
       \<and> ServiceName sc' = ServiceName sc
       \<and> ServiceCost_DirectCost sc' = ServiceCost_DirectCost sc"
  using assms
proof (induction eps arbitrary: sc S)
  case Nil
  then show ?case by simp
next
  case (Cons ep eps)
  from Cons.prems(1) obtain ec dcs vis where
    look: "map_of (ServiceCost_Endpoints sc) (epKey ep) = Some ec"
    and rest: "attributedCostLoop c cg eps
                 (sc\<lparr>ServiceCost_Endpoints :=
                       AList.update (epKey ep) (finalizeEndpointCost ec dcs) (ServiceCost_Endpoints sc)\<rparr>) = Some sc'"
    by (auto simp: Let_def epKey_def split: option.splits)
  let ?sc1 = "sc\<lparr>ServiceCost_Endpoints :=
                       AList.update (epKey ep) (finalizeEndpointCost ec dcs) (ServiceCost_Endpoints sc)\<rparr>"
  have d: "distinct (map fst (ServiceCost_Endpoints ?sc1))"
    using Cons.prems(2) by (simp add: distinct_update)
  have f: "finalOK (finalizeEndpointCost ec dcs)"
    using Cons.prems(3) look finalize_finalOK by blast
  have ok: "\<forall>k e. map_of (ServiceCost_Endpoints ?sc1) k = Some e
              \<longrightarrow> directOK e \<and> (k \<in> insert (epKey ep) S \<longrightarrow> finalOK e)"
    using Cons.prems(3) f by (auto simp: update_conv' finalOK_def)
  have keys: "fst ` set (ServiceCost_Endpoints ?sc1) = fst ` set (ServiceCost_Endpoints sc)"
    using look by (auto simp: dom_update dest!: map_of_SomeD intro: rev_image_eqI)
  from Cons.IH[OF rest d ok] keys show ?case
    by auto
qed
lemma totalServiceCost_fold_Endpoints:
  "ServiceCost_Endpoints (fold (\<lambda>(k, ec) sc. sc\<lparr>AttributedCost := AttributedCost sc + sumDownstream (DownstreamCosts ec)\<rparr>) xs sc)
     = ServiceCost_Endpoints sc
   \<and> ServiceName (fold (\<lambda>(k, ec) sc. sc\<lparr>AttributedCost := AttributedCost sc + sumDownstream (DownstreamCosts ec)\<rparr>) xs sc)
     = ServiceName sc"
  by (induction xs arbitrary: sc) (auto simp: case_prod_unfold)

lemma totalServiceCost_Endpoints [simp]:
  "ServiceCost_Endpoints (totalServiceCost sc) = ServiceCost_Endpoints sc"
  "ServiceName (totalServiceCost sc) = ServiceName sc"
  by (simp_all add: totalServiceCost_def Let_def totalServiceCost_fold_Endpoints)

lemma service_step:
  assumes d: "directCostLoop c sm H eps
                \<lparr>ServiceName = n, ServiceCost_Endpoints = [], ServiceCost_TotalCost = 0,
                   ServiceCost_DirectCost = 0, AttributedCost = 0\<rparr> = Some sc1"
    and a: "attributedCostLoop c cg eps sc1 = Some sc2"
  shows "serviceOK (totalServiceCost sc2) \<and> ServiceName (totalServiceCost sc2) = n"
proof -
  let ?sc0 = "\<lparr>ServiceName = n, ServiceCost_Endpoints = [], ServiceCost_TotalCost = 0,
                   ServiceCost_DirectCost = 0, AttributedCost = 0\<rparr>"
  from directCostLoop_inv[OF d] have
    d1: "distinct (map fst (ServiceCost_Endpoints sc1))"
    and ok1: "\<forall>k ec. map_of (ServiceCost_Endpoints sc1) k = Some ec \<longrightarrow> directOK ec"
    and k1: "fst ` set (ServiceCost_Endpoints sc1) = epKey ` set eps"
    and n1: "ServiceName sc1 = n"
    by auto
  from ok1 have ok1': "\<forall>k ec. map_of (ServiceCost_Endpoints sc1) k = Some ec \<longrightarrow> directOK ec \<and> (k \<in> {} \<longrightarrow> finalOK ec)"
    by simp
  from attributedCostLoop_inv[OF a d1 ok1'] have
    d2: "distinct (map fst (ServiceCost_Endpoints sc2))"
    and ok2: "\<forall>k ec. map_of (ServiceCost_Endpoints sc2) k = Some ec \<longrightarrow> (k \<in> epKey ` set eps \<longrightarrow> finalOK ec)"
    and k2: "fst ` set (ServiceCost_Endpoints sc2) = fst ` set (ServiceCost_Endpoints sc1)"
    and n2: "ServiceName sc2 = ServiceName sc1"
    by auto
  have "finalOK ec" if "(k, ec) \<in> set (ServiceCost_Endpoints sc2)" for k ec
  proof -
    from that d2 have "map_of (ServiceCost_Endpoints sc2) k = Some ec" by simp
    moreover from that have "k \<in> epKey ` set eps" using k1 k2 by force
    ultimately show ?thesis using ok2 by blast
  qed
  then show ?thesis using n1 n2 by (auto simp: serviceOK_def)
qed

lemma serviceLoop_inv:
  assumes "serviceLoop c cg ms H svcs report = Some report'"
    and "\<forall>(k, sc) \<in> set (CostReport_Services report). serviceOK sc"
  shows "\<forall>(k, sc) \<in> set (CostReport_Services report'). serviceOK sc"
  using assms
proof (induction svcs arbitrary: report)
  case Nil
  then show ?case by simp
next
  case (Cons p svcs)
  obtain n s where p: "p = (n, s)" by (cases p)
  from Cons.prems(1) p obtain sc1 sc2 where
    d: "directCostLoop c (GetServiceMetrics ms n) H (Service_Endpoints s)
          \<lparr>ServiceName = n, ServiceCost_Endpoints = [], ServiceCost_TotalCost = 0,
             ServiceCost_DirectCost = 0, AttributedCost = 0\<rparr> = Some sc1"
    and a: "attributedCostLoop c cg (Service_Endpoints s) sc1 = Some sc2"
    and rest: "serviceLoop c cg ms H svcs (AddServiceCost report (totalServiceCost sc2)) = Some report'"
    by (auto simp: Let_def split: option.splits)
  from service_step[OF d a] have ok: "serviceOK (totalServiceCost sc2)" by simp
  have "\<forall>(k, sc) \<in> set (CostReport_Services (AddServiceCost report (totalServiceCost sc2))). serviceOK sc"
    using Cons.prems(2) ok by (auto simp: AddServiceCost_def dest!: update_set_cases)
  from Cons.IH[OF rest this] show ?case .
qed
lemma serviceLoop_total:
  assumes "serviceLoop c cg ms H svcs report = Some report'"
    and "distinct (map fst svcs)"
    and "fst ` set svcs \<inter> fst ` set (CostReport_Services report) = {}"
    and "CostReport_TotalCost report = serviceTotals (CostReport_Services report)"
  shows "CostReport_TotalCost report' = serviceTotals (CostReport_Services report')"
  using assms
proof (induction svcs arbitrary: report)
  case Nil
  then show ?case by simp
next
  case (Cons p svcs)
  obtain n s where p: "p = (n, s)" by (cases p)
  from Cons.prems(1) p obtain sc1 sc2 where
    d: "directCostLoop c (GetServiceMetrics ms n) H (Service_Endpoints s)
          \<lparr>ServiceName = n, ServiceCost_Endpoints = [], ServiceCost_TotalCost = 0,
             ServiceCost_DirectCost = 0, AttributedCost = 0\<rparr> = Some sc1"
    and a: "attributedCostLoop c cg (Service_Endpoints s) sc1 = Some sc2"
    and rest: "serviceLoop c cg ms H svcs (AddServiceCost report (totalServiceCost sc2)) = Some report'"
    by (auto simp: Let_def split: option.splits)
  let ?sc = "totalServiceCost sc2"
  let ?r1 = "AddServiceCost report ?sc"
  from service_step[OF d a] have nm: "ServiceName ?sc = n" by simp
  from Cons.prems(3) p have fresh: "n \<notin> fst ` set (CostReport_Services report)" by auto
  have svcs1: "CostReport_Services ?r1 = CostReport_Services report @ [(n, ?sc)]"
    using fresh nm by (simp add: AddServiceCost_def update_fresh_append)
  have t1: "CostReport_TotalCost ?r1 = serviceTotals (CostReport_Services ?r1)"
    unfolding svcs1 using Cons.prems(4) by (simp add: AddServiceCost_def serviceTotals_def)
  have dis: "distinct (map fst svcs)" using Cons.prems(2) by simp
  have disj: "fst ` set svcs \<inter> fst ` set (CostReport_Services ?r1) = {}"
    unfolding svcs1 using Cons.prems(2,3) p by auto
  from Cons.IH[OF rest dis disj t1] show ?case .
qed
lemma CalculateCosts_Some:
  assumes "CalculateCosts c cg ms tr = Some (report, err)"
  obtains r0 where
    "serviceLoop c cg ms (Hours (Sub (End tr) (Start tr))) (CallGraph_Services cg)
       (NewCostReport (costModel c) tr) = Some r0"
    "CostReport_Services report = CostReport_Services r0"
    "CostReport_TotalCost report = CostReport_TotalCost r0"
    "Recommendations report = generateRecommendations c (r0\<lparr>TopCostly := findTopCostlyEndpoints c r0 10\<rparr>)"
    "err = None"
  using assms by (auto simp: CalculateCosts_def Let_def split: option.splits)

lemma CalculateCosts_serviceOK:
  assumes "CalculateCosts c cg ms tr = Some (report, err)"
  shows "\<forall>(k, sc) \<in> set (CostReport_Services report). serviceOK sc"
proof -
  from assms obtain r0 where
    r0: "serviceLoop c cg ms (Hours (Sub (End tr) (Start tr))) (CallGraph_Services cg)
           (NewCostReport (costModel c) tr) = Some r0"
    and s: "CostReport_Services report = CostReport_Services r0"
    by (rule CalculateCosts_Some)
  have "\<forall>(k, sc) \<in> set (CostReport_Services (NewCostReport (costModel c) tr)). serviceOK sc"
    by (simp add: NewCostReport_def)
  from serviceLoop_inv[OF r0 this] s show ?thesis by simp
qed

text \<open>
  C8. In a report that \<open>CalculateCosts\<close> returns, every cost breakdown of an endpoint cost
  has a total equal to cpuCost + memoryCost + networkCost + diskCost + requestCost +
  downstreamTotal.
\<close>

theorem breakdown_total_invariant:
  assumes "CalculateCosts c cg ms tr = Some (report, err)"
  shows "\<forall>(k, sc) \<in> set (CostReport_Services report).
           \<forall>(k', ec) \<in> set (ServiceCost_Endpoints sc).
             \<forall>cb. EndpointCost_CostBreakdown ec = Some cb \<longrightarrow>
               Total cb = CPUCost cb + MemoryCost cb + NetworkCost cb + DiskCost cb
                            + RequestCost cb + DownstreamTotal cb"
  using CalculateCosts_serviceOK[OF assms]
  by (fastforce simp: serviceOK_def finalOK_def split: option.splits)

theorem breakdown_total_invariant_witness:
  "CalculateCosts exampleCalculator exampleCallGraph exampleMetrics exampleTimeRange
     = Some (exampleReport, None)
   \<and> list_all (\<lambda>(k, sc). list_all (\<lambda>(k', ec).
         case EndpointCost_CostBreakdown ec of None \<Rightarrow> False | Some cb \<Rightarrow> breakdownSums cb)
           (ServiceCost_Endpoints sc)) (CostReport_Services exampleReport)"
  using breakdown_total_invariant[OF exampleReport_eval] exampleReport_eval
  by (simp add: exampleReport_def breakdownSums_def)

text \<open>
  C9. In a report that \<open>CalculateCosts\<close> returns (for a call graph whose map of services has
  each name once, as a map has), the total cost is the sum of the total costs of its
  service costs. Three service costs with totals 10.0, 20.0 and 15.5, added to a new report,
  give a total of 45.5.
\<close>

theorem report_total_is_sum:
  assumes "CalculateCosts c cg ms tr = Some (report, err)"
    and "distinct (map fst (CallGraph_Services cg))"
  shows "CostReport_TotalCost report = serviceTotals (CostReport_Services report)
       \<and> CostReport_TotalCost
           (CalculateTotalCost
             (AddServiceCost
               (AddServiceCost
                 (AddServiceCost (NewCostReport m t)
                   \<lparr>ServiceName = ''service-1'', ServiceCost_Endpoints = [],
                    ServiceCost_TotalCost = 10, ServiceCost_DirectCost = 0, AttributedCost = 0\<rparr>)
                 \<lparr>ServiceName = ''service-2'', ServiceCost_Endpoints = [],
                  ServiceCost_TotalCost = 20, ServiceCost_DirectCost = 0, AttributedCost = 0\<rparr>)
               \<lparr>ServiceName = ''service-3'', ServiceCost_Endpoints = [],
                ServiceCost_TotalCost = 15.5, ServiceCost_DirectCost = 0, AttributedCost = 0\<rparr>))
           = 45.5"
proof -
  from assms(1) obtain r0 where
    r0: "serviceLoop c cg ms (Hours (Sub (End tr) (Start tr))) (CallGraph_Services cg)
           (NewCostReport (costModel c) tr) = Some r0"
    and s: "CostReport_Services report = CostReport_Services r0"
    and t: "CostReport_TotalCost report = CostReport_TotalCost r0"
    by (rule CalculateCosts_Some)
  have "CostReport_TotalCost r0 = serviceTotals (CostReport_Services r0)"
    by (rule serviceLoop_total[OF r0 assms(2)]) (simp_all add: NewCostReport_def serviceTotals_def)
  with s t show ?thesis
    by (simp add: CalculateTotalCost_def AddServiceCost_def NewCostReport_def)
qed

theorem report_total_is_sum_witness:
  "CalculateCosts exampleCalculator exampleCallGraph exampleMetrics exampleTimeRange
     = Some (exampleReport, None)
   \<and> distinct (map fst (CallGraph_Services exampleCallGraph))
   \<and> CostReport_TotalCost exampleReport = 0.45
   \<and> serviceTotals (CostReport_Services exampleReport) = 0.45"
  using report_total_is_sum[OF exampleReport_eval, where m = exampleCostModel and t = exampleTimeRange]
    exampleReport_eval
  by (simp add: exampleReport_def exampleCallGraph_def serviceTotals_def)
lemma concat_map_if:
  "concat (map (\<lambda>x. if P x then [f x] else []) xs) = map f (filter P xs)"
  by (induction xs) auto

lemma finalOK_reviewRecommendation:
  "finalOK ec \<Longrightarrow>
     reviewRecommendation ec =
       (if reviewRule ec then [ReviewDependencyChain (EndpointCost_Service ec) (EndpointCost_Endpoint ec)]
        else [])"
  by (auto simp: finalOK_def directOK_def reviewRecommendation_def reviewRule_def Let_def
           split: option.splits)

lemma review_concat:
  assumes "\<forall>(k, ec) \<in> set eps. finalOK ec"
  shows "concat (map (\<lambda>(k', ec). reviewRecommendation ec) eps)
           = map (\<lambda>ec. ReviewDependencyChain (EndpointCost_Service ec) (EndpointCost_Endpoint ec))
               (filter reviewRule (map snd eps))"
  using assms by (induction eps) (auto simp: finalOK_reviewRecommendation)

lemma review_concat_services:
  assumes "\<forall>(k, sc) \<in> set svcs. serviceOK sc"
  shows "concat (map (\<lambda>(k, sc). concat (map (\<lambda>(k', ec). reviewRecommendation ec)
                                            (ServiceCost_Endpoints sc))) svcs)
           = map (\<lambda>ec. ReviewDependencyChain (EndpointCost_Service ec) (EndpointCost_Endpoint ec))
               (filter reviewRule (concat (map (\<lambda>(k, sc). map snd (ServiceCost_Endpoints sc)) svcs)))"
  using assms
proof (induction svcs)
  case Nil
  then show ?case by simp
next
  case (Cons p svcs)
  obtain k sc where p: "p = (k, sc)" by (cases p)
  with Cons.prems have "\<forall>(k, ec) \<in> set (ServiceCost_Endpoints sc). finalOK ec"
    by (simp add: serviceOK_def)
  from review_concat[OF this] Cons p show ?case by simp
qed

lemma filter_review_all:
  "filter isReviewDependencyChain (map (\<lambda>ec. ReviewDependencyChain (f ec) (g ec)) xs)
     = map (\<lambda>ec. ReviewDependencyChain (f ec) (g ec)) xs"
  by (induction xs) (auto simp: isReviewDependencyChain_def)

text \<open>
  C6. In a report that \<open>CalculateCosts\<close> returns, the recommendations to review a
  dependency chain are those of the endpoint costs (in the order of the services and of
  their endpoints) whose direct cost is strictly positive and whose downstream total
  divided by the direct cost is strictly greater than 5: one for each such endpoint cost
  and no other. So a ratio of exactly 5 gives none, and a direct cost of zero gives none.
  The downstream total is the sum of the costs of the downstream entries, which is the
  \<open>DownstreamTotal\<close> of the breakdown; an endpoint cost without breakdown has a direct
  cost of zero.
\<close>

theorem review_recommendation_rule:
  assumes "CalculateCosts c cg ms tr = Some (report, err)"
  shows "filter isReviewDependencyChain (Recommendations report)
           = map (\<lambda>ec. ReviewDependencyChain (EndpointCost_Service ec) (EndpointCost_Endpoint ec))
               (filter reviewRule (allEndpointCosts report))
       \<and> list_all (\<lambda>ec. case EndpointCost_CostBreakdown ec of
                           None \<Rightarrow> DirectCost ec = 0
                         | Some cb \<Rightarrow> DownstreamTotal cb = sumDownstream (DownstreamCosts ec))
           (allEndpointCosts report)"
proof -
  from assms obtain r0 where
    s: "CostReport_Services report = CostReport_Services r0"
    and rec: "Recommendations report
                = generateRecommendations c (r0\<lparr>TopCostly := findTopCostlyEndpoints c r0 10\<rparr>)"
    by (rule CalculateCosts_Some)
  have ok: "\<forall>(k, sc) \<in> set (CostReport_Services report). serviceOK sc"
    by (rule CalculateCosts_serviceOK[OF assms])
  have top: "filter isReviewDependencyChain
               (case TopCostly (r0\<lparr>TopCostly := findTopCostlyEndpoints c r0 10\<rparr>) of
                  [] \<Rightarrow> []
                | topEndpoint # rest \<Rightarrow>
                    [OptimizeHighestCost (EndpointCost_Service topEndpoint)
                       (EndpointCost_Endpoint topEndpoint) (CostPerRequest topEndpoint)]) = []"
    by (simp add: isReviewDependencyChain_def split: list.splits)
  have "filter isReviewDependencyChain (Recommendations report)
          = filter isReviewDependencyChain
              (concat (map (\<lambda>(k, sc). concat (map (\<lambda>(k', ec). reviewRecommendation ec)
                                                   (ServiceCost_Endpoints sc)))
                         (CostReport_Services report)))"
    unfolding rec generateRecommendations_def Let_def filter_append top using s by simp
  also have "\<dots> = map (\<lambda>ec. ReviewDependencyChain (EndpointCost_Service ec) (EndpointCost_Endpoint ec))
               (filter reviewRule (allEndpointCosts report))"
    unfolding review_concat_services[OF ok] allEndpointCosts_def by (rule filter_review_all)
  finally have A: "filter isReviewDependencyChain (Recommendations report)
           = map (\<lambda>ec. ReviewDependencyChain (EndpointCost_Service ec) (EndpointCost_Endpoint ec))
               (filter reviewRule (allEndpointCosts report))" .
  have B: "list_all (\<lambda>ec. case EndpointCost_CostBreakdown ec of
                           None \<Rightarrow> DirectCost ec = 0
                         | Some cb \<Rightarrow> DownstreamTotal cb = sumDownstream (DownstreamCosts ec))
           (allEndpointCosts report)"
    unfolding list_all_iff
  proof
    fix ec assume "ec \<in> set (allEndpointCosts report)"
    with ok have "finalOK ec"
      by (fastforce simp: allEndpointCosts_def serviceOK_def)
    then show "case EndpointCost_CostBreakdown ec of
                 None \<Rightarrow> DirectCost ec = 0
               | Some cb \<Rightarrow> DownstreamTotal cb = sumDownstream (DownstreamCosts ec)"
      by (simp add: finalOK_def directOK_def split: option.splits)
  qed
  from A B show ?thesis by simp
qed

theorem review_recommendation_rule_witness:
  "CalculateCosts exampleCalculator exampleCallGraph exampleMetrics exampleTimeRange
     = Some (exampleReport, None)
   \<and> filter isReviewDependencyChain (Recommendations exampleReport)
       = [ReviewDependencyChain ''shop'' ''/home'']
   \<and> map reviewRule (allEndpointCosts exampleReport) = [True, False]"
  using review_recommendation_rule[OF exampleReport_eval] exampleReport_eval
  by (simp add: exampleReport_def allEndpointCosts_def reviewRule_def sumDownstream_def
        isReviewDependencyChain_def)









section \<open>Properties of the graph engine\<close>

lemmas graph_eval_defs = node1_def node2_def node3_def node4_def addNodes_def addEdges_def
  NewGraph_def AddNode_def AddEdge_def GetNode_def GetOutgoingEdges_def Let_def

subsection \<open>FindAllPaths\<close>

lemma pathsAvoiding_short: "k \<le> 0 \<Longrightarrow> pathsAvoiding g visited current endID k = {}"
  by (auto simp: pathsAvoiding_def neq_Nil_conv)

lemma pathsAvoiding_end:
  assumes "ID current = endID" "\<not> visited (ID current)" "1 \<le> k"
  shows "pathsAvoiding g visited current endID k = {[current]}"
proof -
  have "q = [current]" if "q \<in> pathsAvoiding g visited current endID k" for q
  proof -
    from that obtain q' where q: "q = current # q'" and d: "distinct (map ID q)"
      and l: "ID (last q) = endID"
      by (cases q) (auto simp: pathsAvoiding_def)
    show ?thesis
    proof (cases q')
      case Nil
      with q show ?thesis by simp
    next
      case (Cons a list)
      with q have "last q \<in> set q'" by simp
      with d q l assms(1) show ?thesis by (auto simp: image_iff)
    qed
  qed
  moreover have "[current] \<in> pathsAvoiding g visited current endID k"
    using assms by (simp add: pathsAvoiding_def)
  ultimately show ?thesis by blast
qed

lemma pathsAvoiding_step:
  assumes "ID current \<noteq> endID" "\<not> visited (ID current)"
  shows "pathsAvoiding g visited current endID k =
           (\<lambda>q. current # q) `
             (\<Union>edge \<in> set (GetOutgoingEdges g current).
                pathsAvoiding g (visited(ID current := True)) (To edge) endID (k - 1))"
    (is "?L = ?R")
proof (intro set_eqI iffI)
  fix q assume "q \<in> ?L"
  then have q: "q \<noteq> []" "hd q = current" "followsEdges g q" "distinct (map ID q)"
    "list_all (\<lambda>n. \<not> visited (ID n)) q" "ID (last q) = endID" "int (length q) \<le> k"
    by (auto simp: pathsAvoiding_def)
  then obtain q' where qq: "q = current # q'" by (cases q) auto
  with q(6) assms(1) obtain m rest where q': "q' = m # rest" by (cases q') auto
  from q(3) qq q' obtain edge where e: "edge \<in> set (edges g)" "ID (From edge) = ID current" "To edge = m"
    and c: "followsEdges g q'"
    by (auto simp: list_ex_iff)
  have av: "\<not> (visited(ID current := True)) (ID n)" if "n \<in> set q'" for n
  proof -
    from that q(4) qq have "ID n \<noteq> ID current" by (auto simp: image_iff)
    moreover from that q(5) qq have "\<not> visited (ID n)" by (simp add: list_all_iff)
    ultimately show ?thesis by simp
  qed
  have "q' \<in> pathsAvoiding g (visited(ID current := True)) (To edge) endID (k - 1)"
    using q(4,6,7) qq q' e c av by (simp add: pathsAvoiding_def list_all_iff)
  moreover have "edge \<in> set (GetOutgoingEdges g current)"
    using e by (simp add: GetOutgoingEdges_def)
  ultimately show "q \<in> ?R" using qq by blast
next
  fix q assume "q \<in> ?R"
  then obtain edge q' where e: "edge \<in> set (GetOutgoingEdges g current)"
    and q': "q' \<in> pathsAvoiding g (visited(ID current := True)) (To edge) endID (k - 1)"
    and qq: "q = current # q'"
    by blast
  from q' have p: "q' \<noteq> []" "hd q' = To edge" "followsEdges g q'" "distinct (map ID q')"
    "list_all (\<lambda>n. \<not> (visited(ID current := True)) (ID n)) q'" "ID (last q') = endID"
    "int (length q') \<le> k - 1"
    by (auto simp: pathsAvoiding_def)
  from p(1,2) obtain rest where r: "q' = To edge # rest" by (cases q') auto
  from e have ee: "edge \<in> set (edges g)" "ID (From edge) = ID current"
    by (auto simp: GetOutgoingEdges_def)
  have "followsEdges g q" using qq r p(3) ee by (auto simp: list_ex_iff)
  moreover have "distinct (map ID q)" using qq p(4,5) by (auto simp: list_all_iff)
  moreover have "list_all (\<lambda>n. \<not> visited (ID n)) q"
    using qq p(5) assms(2) by (auto simp: list_all_iff split: if_splits)
  ultimately show "q \<in> ?L" using qq p(1,6,7) by (auto simp: pathsAvoiding_def)
qed

lemma findPaths_aux:
  "\<not> visited (ID current) \<longrightarrow>
     (\<exists>new. findPathsDFS g current endID maxDepth currentPath (visited, paths) = (visited, paths @ new)
        \<and> set new = (\<lambda>q. currentPath @ q) `
             pathsAvoiding g visited current endID (maxDepth + 1 - int (length currentPath)))"
  "(\<exists>new. findPathsEdges g es endID maxDepth currentPath (visited, paths) = (visited, paths @ new)
        \<and> set new = (\<lambda>q. currentPath @ q) `
             (\<Union>edge \<in> set es.
                pathsAvoiding g visited (To edge) endID (maxDepth + 1 - int (length currentPath))))"
proof (induction g current endID maxDepth currentPath "(visited, paths)"
         and g es endID maxDepth currentPath "(visited, paths)"
         arbitrary: visited paths and visited paths
         rule: findPathsDFS_findPathsEdges.induct)
  case (1 g current endID maxDepth currentPath visited paths)
  show ?case
  proof
    assume nv: "\<not> visited (ID current)"
    have rst: "(visited(ID current := True))(ID current := False) = visited"
      using nv by (auto simp: fun_eq_iff)
    show "\<exists>new. findPathsDFS g current endID maxDepth currentPath (visited, paths) = (visited, paths @ new)
        \<and> set new = (\<lambda>q. currentPath @ q) `
             pathsAvoiding g visited current endID (maxDepth + 1 - int (length currentPath))"
    proof (cases "int (length currentPath) > maxDepth")
      case True
      then show ?thesis by (simp add: findPathsDFS.simps pathsAvoiding_short)
    next
      case len: False
      show ?thesis
      proof (cases "ID current = endID")
        case True
        with len nv rst show ?thesis
          by (simp add: findPathsDFS.simps pathsAvoiding_end)
      next
        case False
        from 1[OF len refl refl False]
        obtain new where
          run: "findPathsEdges g (GetOutgoingEdges g current) endID maxDepth (currentPath @ [current])
                  (visited(ID current := True), paths) = (visited(ID current := True), paths @ new)"
          and new: "set new = (\<lambda>q. (currentPath @ [current]) @ q) `
                 (\<Union>edge \<in> set (GetOutgoingEdges g current).
                    pathsAvoiding g (visited(ID current := True)) (To edge) endID
                      (maxDepth + 1 - int (length (currentPath @ [current]))))"
          by blast
        have "set new = (\<lambda>q. currentPath @ q) `
                 pathsAvoiding g visited current endID (maxDepth + 1 - int (length currentPath))"
          unfolding new pathsAvoiding_step[where g = g and k = "maxDepth + 1 - int (length currentPath)"
              and visited = visited and current = current and endID = endID, OF False nv]
          by (simp add: image_image algebra_simps)
        with run len False rst show ?thesis by (simp add: findPathsDFS.simps)
      qed
    qed
  qed
next
  case (2 g endID maxDepth currentPath visited paths)
  then show ?case by simp
next
  case (3 g edge rest endID maxDepth currentPath visited paths)
  show ?case
  proof (cases "visited (ID (To edge))")
    case True
    then have "pathsAvoiding g visited (To edge) endID (maxDepth + 1 - int (length currentPath)) = {}"
      by (auto simp: pathsAvoiding_def neq_Nil_conv)
    with 3(2)[of visited paths] True show ?thesis by simp
  next
    case False
    from 3(1)[OF False] False obtain new1 where
      d: "findPathsDFS g (To edge) endID maxDepth currentPath (visited, paths) = (visited, paths @ new1)"
      and n1: "set new1 = (\<lambda>q. currentPath @ q) `
                 pathsAvoiding g visited (To edge) endID (maxDepth + 1 - int (length currentPath))"
      by blast
    from 3(2)[of visited "paths @ new1"] False d obtain new2 where
      l: "findPathsEdges g rest endID maxDepth currentPath (visited, paths @ new1) = (visited, (paths @ new1) @ new2)"
      and n2: "set new2 = (\<lambda>q. currentPath @ q) `
             (\<Union>edge \<in> set rest.
                pathsAvoiding g visited (To edge) endID (maxDepth + 1 - int (length currentPath)))"
      by auto
    show ?thesis
      using False d l n1 n2 by (intro exI[of _ "new1 @ new2"]) (auto simp: image_Un)
  qed
qed

text \<open>
  C5. For every graph, identifiers \<open>startID\<close> and \<open>endID\<close> and bound \<open>maxDepth\<close>, the paths
  that \<open>FindAllPaths\<close> returns are exactly the simple paths from the node of \<open>startID\<close> to
  a node of identifier \<open>endID\<close> within the bound: the non-empty sequences of nodes that
  begin with the node stored under \<open>startID\<close>, follow the edges of the graph, repeat no
  node identifier, end at \<open>endID\<close> and have at most \<open>maxDepth\<close> hops (one node more than
  hops). Nothing else is returned and none of them is left out, also when two of them
  share a node, since a node is unmarked when the search leaves it.
\<close>

theorem FindAllPaths_simple_paths:
  "set (FindAllPaths g startID endID maxDepth) =
     {p. p \<noteq> [] \<and> GetNode g startID = Some (hd p) \<and> followsEdges g p \<and> distinct (map ID p)
         \<and> ID (last p) = endID \<and> int (length p) - 1 \<le> maxDepth}"
proof (cases "GetNode g startID")
  case None
  then show ?thesis by (simp add: FindAllPaths_def)
next
  case (Some start)
  from findPaths_aux(1)[of "\<lambda>k. False" start g endID maxDepth "[]" "[]"]
  obtain new where "findPathsDFS g start endID maxDepth [] (\<lambda>k. False, []) = (\<lambda>k. False, new)"
    and "set new = pathsAvoiding g (\<lambda>k. False) start endID (maxDepth + 1)"
    by auto
  with Some have "set (FindAllPaths g startID endID maxDepth)
                    = pathsAvoiding g (\<lambda>k. False) start endID (maxDepth + 1)"
    by (simp add: FindAllPaths_def)
  also have "\<dots> = {p. p \<noteq> [] \<and> GetNode g startID = Some (hd p) \<and> followsEdges g p \<and> distinct (map ID p)
         \<and> ID (last p) = endID \<and> int (length p) - 1 \<le> maxDepth}"
    unfolding pathsAvoiding_def Some
  proof (rule Collect_cong)
    fix q :: "Node list"
    have "list_all (\<lambda>n. \<not> False) q" by (simp add: list_all_iff)
    moreover have "(int (length q) \<le> maxDepth + 1) = (int (length q) - 1 \<le> maxDepth)" by linarith
    moreover have "(hd q = start) = (Some start = Some (hd q))" by auto
    ultimately show "(q \<noteq> [] \<and> hd q = start \<and> followsEdges g q \<and> distinct (map ID q)
         \<and> list_all (\<lambda>n. \<not> False) q \<and> ID (last q) = endID \<and> int (length q) \<le> maxDepth + 1)
        = (q \<noteq> [] \<and> Some start = Some (hd q) \<and> followsEdges g q \<and> distinct (map ID q)
         \<and> ID (last q) = endID \<and> int (length q) - 1 \<le> maxDepth)"
      by blast
  qed
  finally show ?thesis .
qed


theorem FindAllPaths_simple_paths_witness:
  "FindAllPaths diamondGraph ''node1'' ''node4'' 5
     = [[node1, node2, node4], [node1, node3, node4]]
   \<and> {p. p \<noteq> [] \<and> GetNode diamondGraph ''node1'' = Some (hd p) \<and> followsEdges diamondGraph p
           \<and> distinct (map ID p) \<and> ID (last p) = ''node4'' \<and> int (length p) - 1 \<le> 5}
     = {[node1, node2, node4], [node1, node3, node4]}
   \<and> FindAllPaths diamondGraph ''node1'' ''node4'' 1 = []"
  using FindAllPaths_simple_paths[of diamondGraph "''node1''" "''node4''" 5]
  by (simp add: graph_eval_defs diamondGraph_def FindAllPaths_def findPathsDFS.simps)

subsection \<open>Graphs built by AddNode and AddEdge\<close>

text \<open>
  The empty graph is well formed, \<open>AddNode\<close> keeps a graph well formed, and so does
  \<open>AddEdge\<close> between two nodes of the graph.
\<close>

lemma wfGraph_NewGraph: "wfGraph NewGraph"
  by (simp add: wfGraph_def NewGraph_def)

lemma wfGraph_AddNode:
  assumes "wfGraph g"
  shows "wfGraph (snd (AddNode g nodeID service endpoint method))"
proof (cases "map_of (nodes g) nodeID")
  case None
  then have fresh: "nodeID \<notin> fst ` set (nodes g)" by (simp add: map_of_eq_None_iff)
  then have upd: "AList.update nodeID v (nodes g) = nodes g @ [(nodeID, v)]" for v
    by (rule update_fresh_append)
  have keep: "map_of (nodes g @ [(nodeID, v)]) k = Some n" if "map_of (nodes g) k = Some n" for k n v
    using that by (simp add: map_add_Some_iff)
  from assms None show ?thesis
    by (auto simp: wfGraph_def AddNode_def Let_def upd GetNode_def list_all_iff fresh keep)
next
  case (Some node)
  with assms show ?thesis by (simp add: AddNode_def)
qed

lemma wfGraph_AddEdge:
  assumes "wfGraph g" "GetNode g (ID fromNode) = Some fromNode" "GetNode g (ID toNode) = Some toNode"
  shows "wfGraph (snd (AddEdge g fromNode toNode weight dep))"
  using assms by (auto simp: wfGraph_def AddEdge_def Let_def GetNode_def list_all_iff)

subsection \<open>HasCycle\<close>

lemma wf_GetNode:
  assumes "wfGraph g" "n \<in> fst ` set (nodes g)"
  obtains node where "GetNode g n = Some node" "ID node = n"
proof -
  from assms(2) obtain node where "(n, node) \<in> set (nodes g)" by auto
  moreover from this assms(1) have "ID node = n" by (auto simp: wfGraph_def list_all_iff)
  moreover from assms(1) have "distinct (map fst (nodes g))" by (simp add: wfGraph_def)
  ultimately show ?thesis using that by (simp add: GetNode_def)
qed

lemma wf_edge_target:
  assumes "wfGraph g" "edge \<in> set (edges g)"
  shows "ID (To edge) \<in> fst ` set (nodes g)" "ID (From edge) \<in> fst ` set (nodes g)"
  using assms
  by (auto simp: wfGraph_def list_all_iff GetNode_def dest!: map_of_SomeD intro: rev_image_eqI)




lemma dfsInvD:
  assumes "dfsInv g visited recStack"
  shows "recStack x \<Longrightarrow> visited x"
    and "visited x \<Longrightarrow> x \<in> fst ` set (nodes g)"
    and "visited x \<Longrightarrow> \<not> recStack x \<Longrightarrow> (x, y) \<in> edgeRel g \<Longrightarrow> visited y \<and> \<not> recStack y"
    and "visited x \<Longrightarrow> \<not> recStack x \<Longrightarrow> (x, x) \<notin> (edgeRel g)\<^sup>+"
proof -
  from assms have a: "\<forall>x. recStack x \<longrightarrow> visited x"
    unfolding dfsInv_def by iprover
  from assms have b: "\<forall>x. visited x \<longrightarrow> x \<in> fst ` set (nodes g)"
    unfolding dfsInv_def by iprover
  from assms have c: "\<forall>x y. visited x \<and> \<not> recStack x \<and> (x, y) \<in> edgeRel g \<longrightarrow> visited y \<and> \<not> recStack y"
    unfolding dfsInv_def by iprover
  from assms have d: "\<forall>x. visited x \<and> \<not> recStack x \<longrightarrow> (x, x) \<notin> (edgeRel g)\<^sup>+"
    unfolding dfsInv_def by iprover
  from a show "recStack x \<Longrightarrow> visited x" by iprover
  from b show "visited x \<Longrightarrow> x \<in> fst ` set (nodes g)" by iprover
  from c show "visited x \<Longrightarrow> \<not> recStack x \<Longrightarrow> (x, y) \<in> edgeRel g \<Longrightarrow> visited y \<and> \<not> recStack y"
    by iprover
  from d show "visited x \<Longrightarrow> \<not> recStack x \<Longrightarrow> (x, x) \<notin> (edgeRel g)\<^sup>+"
    by iprover
qed

lemma dfsInvI:
  assumes "\<And>x. recStack x \<Longrightarrow> visited x"
    and "\<And>x. visited x \<Longrightarrow> x \<in> fst ` set (nodes g)"
    and "\<And>x y. visited x \<Longrightarrow> \<not> recStack x \<Longrightarrow> (x, y) \<in> edgeRel g \<Longrightarrow> visited y \<and> \<not> recStack y"
    and "\<And>x. visited x \<Longrightarrow> \<not> recStack x \<Longrightarrow> (x, x) \<notin> (edgeRel g)\<^sup>+"
  shows "dfsInv g visited recStack"
  unfolding dfsInv_def
proof (intro conjI allI impI)
  fix x assume "recStack x" then show "visited x" by (rule assms(1))
next
  fix x assume "visited x" then show "x \<in> fst ` set (nodes g)" by (rule assms(2))
next
  fix x y assume "visited x \<and> \<not> recStack x \<and> (x, y) \<in> edgeRel g"
  then have "visited x" "\<not> recStack x" "(x, y) \<in> edgeRel g" by iprover+
  from assms(3)[OF this] show "visited y" by (rule conjunct1)
next
  fix x y assume "visited x \<and> \<not> recStack x \<and> (x, y) \<in> edgeRel g"
  then have "visited x" "\<not> recStack x" "(x, y) \<in> edgeRel g" by iprover+
  from assms(3)[OF this] show "\<not> recStack y" by (rule conjunct2)
next
  fix x assume "visited x \<and> \<not> recStack x"
  then have "visited x" "\<not> recStack x" by iprover+
  from assms(4)[OF this] show "(x, x) \<notin> (edgeRel g)\<^sup>+" .
qed

lemma black_closed_star:
  assumes "dfsInv g visited recStack" "(x, y) \<in> (edgeRel g)\<^sup>*" "visited x" "\<not> recStack x"
  shows "visited y \<and> \<not> recStack y"
  using assms(2,3,4)
proof (induction rule: rtrancl_induct)
  case base
  then show ?case by simp
next
  case (step y z)
  then have "visited y" "\<not> recStack y" by simp_all
  from dfsInvD(3)[OF assms(1) this step(2)] show ?case .
qed

lemma finish_node:
  assumes inv: "dfsInv g visited recStack"
    and grey: "recStack n"
    and succs: "\<And>y. (n, y) \<in> edgeRel g \<Longrightarrow> visited y \<and> \<not> recStack y"
  shows "dfsInv g visited (recStack(n := False))"
proof (rule dfsInvI)
  fix x assume "(recStack(n := False)) x"
  then have "recStack x" by (simp split: if_splits)
  then show "visited x" by (rule dfsInvD(1)[OF inv])
next
  fix x assume "visited x" then show "x \<in> fst ` set (nodes g)" by (rule dfsInvD(2)[OF inv])
next
  fix x y assume a: "visited x" "\<not> (recStack(n := False)) x" "(x, y) \<in> edgeRel g"
  have "visited y \<and> \<not> recStack y"
  proof (cases "x = n")
    case True
    with succs a(3) show ?thesis by simp
  next
    case False
    with a(2) have "\<not> recStack x" by simp
    from dfsInvD(3)[OF inv a(1) this a(3)] show ?thesis .
  qed
  then show "visited y \<and> \<not> (recStack(n := False)) y" by simp
next
  fix x assume a: "visited x" "\<not> (recStack(n := False)) x"
  show "(x, x) \<notin> (edgeRel g)\<^sup>+"
  proof (cases "x = n")
    case True
    show ?thesis
    proof
      assume "(x, x) \<in> (edgeRel g)\<^sup>+"
      with True have "(n, n) \<in> (edgeRel g)\<^sup>+" by simp
      from tranclD[OF this] obtain y where y: "(n, y) \<in> edgeRel g" "(y, n) \<in> (edgeRel g)\<^sup>*"
        by fast
      from succs[OF y(1)] have "visited y" "\<not> recStack y" by simp_all
      from black_closed_star[OF inv y(2) this] grey show False by simp
    qed
  next
    case False
    with a(2) have "\<not> recStack x" by simp
    from dfsInvD(4)[OF inv a(1) this] show ?thesis .
  qed
qed

lemma start_node:
  assumes inv: "dfsInv g visited recStack" and n: "n \<in> fst ` set (nodes g)"
    and nv: "\<not> visited n"
  shows "dfsInv g (visited(n := True)) (recStack(n := True))"
proof (rule dfsInvI)
  fix x assume "(recStack(n := True)) x"
  then show "(visited(n := True)) x" using dfsInvD(1)[OF inv, of x] by (simp split: if_splits)
next
  fix x assume "(visited(n := True)) x"
  then show "x \<in> fst ` set (nodes g)" using dfsInvD(2)[OF inv, of x] n by (simp split: if_splits)
next
  fix x y assume a: "(visited(n := True)) x" "\<not> (recStack(n := True)) x" "(x, y) \<in> edgeRel g"
  then have xn: "x \<noteq> n" "visited x" "\<not> recStack x" by (simp_all split: if_splits)
  from dfsInvD(3)[OF inv xn(2,3) a(3)] have y: "visited y" "\<not> recStack y" by simp_all
  with nv have "y \<noteq> n" by blast
  with y show "(visited(n := True)) y \<and> \<not> (recStack(n := True)) y" by simp
next
  fix x assume a: "(visited(n := True)) x" "\<not> (recStack(n := True)) x"
  then have "visited x" "\<not> recStack x" by (simp_all split: if_splits)
  from dfsInvD(4)[OF inv this] show "(x, x) \<notin> (edgeRel g)\<^sup>+" .
qed

lemma dfsPostE:
  assumes "dfsPost g visited recStack res"
  obtains st where "res = Some (True, st)" "cyclic g"
  | visited' where "res = Some (False, visited', recStack)" "\<And>x. visited x \<Longrightarrow> visited' x"
      "dfsInv g visited' recStack"
  using assms unfolding dfsPost_def by (auto split: option.splits if_splits)

lemma outgoing_wf:
  assumes wf: "wfGraph g" and n: "n \<in> fst ` set (nodes g)"
  shows "(case GetNode g n of Some node \<Rightarrow> Some (GetOutgoingEdges g node)
          | None \<Rightarrow> if edges g = [] then Some [] else None)
         = Some (filter (\<lambda>edge. ID (From edge) = n) (edges g))"
proof -
  from wf_GetNode[OF wf n] obtain node where "GetNode g n = Some node" "ID node = n" by blast
  then show ?thesis by (simp add: GetOutgoingEdges_def)
qed

lemma hasCycle_correct_aux:
  "wfGraph g \<longrightarrow> nodeID \<in> fst ` set (nodes g) \<longrightarrow> \<not> visited nodeID \<longrightarrow> dfsInv g visited recStack
     \<longrightarrow> (\<forall>x. recStack x \<longrightarrow> (x, nodeID) \<in> (edgeRel g)\<^sup>+)
     \<longrightarrow> dfsPost g visited recStack (hasCycleDFS g nodeID (visited, recStack))
         \<and> (\<forall>b v r. hasCycleDFS g nodeID (visited, recStack) = Some (b, v, r) \<longrightarrow> \<not> b \<longrightarrow> v nodeID)"
  "wfGraph g \<longrightarrow> (\<forall>n. recStack n \<and> (\<forall>edge \<in> set es. edge \<in> set (edges g) \<and> ID (From edge) = n)
        \<and> (\<forall>x. recStack x \<longrightarrow> (x, n) \<in> (edgeRel g)\<^sup>*) \<and> dfsInv g visited recStack
     \<longrightarrow> dfsPost g visited recStack (hasCycleEdges g es (visited, recStack))
         \<and> (\<forall>b v r. hasCycleEdges g es (visited, recStack) = Some (b, v, r) \<longrightarrow> \<not> b \<longrightarrow>
               (\<forall>edge \<in> set es. v (ID (To edge)) \<and> \<not> recStack (ID (To edge)))))"
proof (induction g nodeID "(visited, recStack)" and g es "(visited, recStack)"
         arbitrary: visited recStack and visited recStack
         rule: hasCycleDFS_hasCycleEdges.induct)
  case (1 g nodeID visited recStack)
  show ?case
  proof (intro impI)
    assume wf: "wfGraph g" and n: "nodeID \<in> fst ` set (nodes g)" and nv: "\<not> visited nodeID"
      and inv: "dfsInv g visited recStack"
      and path: "\<forall>x. recStack x \<longrightarrow> (x, nodeID) \<in> (edgeRel g)\<^sup>+"
    let ?out = "filter (\<lambda>edge. ID (From edge) = nodeID) (edges g)"
    let ?v1 = "visited(nodeID := True)" and ?r1 = "recStack(nodeID := True)"
    note out = outgoing_wf[OF wf n]
    have nr: "\<not> recStack nodeID" using dfsInvD(1)[OF inv, of nodeID] nv by blast
    have inv1: "dfsInv g ?v1 ?r1" by (rule start_node[OF inv n nv])
    have path1: "\<forall>x. ?r1 x \<longrightarrow> (x, nodeID) \<in> (edgeRel g)\<^sup>*"
      using path by (auto intro: trancl_into_rtrancl)
    have pre: "?r1 nodeID \<and> (\<forall>edge \<in> set ?out. edge \<in> set (edges g) \<and> ID (From edge) = nodeID)
        \<and> (\<forall>x. ?r1 x \<longrightarrow> (x, nodeID) \<in> (edgeRel g)\<^sup>*) \<and> dfsInv g ?v1 ?r1"
      using inv1 path1 by simp
    from 1[OF refl refl out, THEN mp, OF wf, THEN spec, of nodeID, THEN mp, OF pre]
    have post: "dfsPost g ?v1 ?r1 (hasCycleEdges g ?out (?v1, ?r1))"
      and tg: "\<forall>b v r. hasCycleEdges g ?out (?v1, ?r1) = Some (b, v, r) \<longrightarrow> \<not> b \<longrightarrow>
               (\<forall>edge \<in> set ?out. v (ID (To edge)) \<and> \<not> ?r1 (ID (To edge)))"
      by (rule conjunct1, rule conjunct2)
    from post show "dfsPost g visited recStack (hasCycleDFS g nodeID (visited, recStack))
         \<and> (\<forall>b v r. hasCycleDFS g nodeID (visited, recStack) = Some (b, v, r) \<longrightarrow> \<not> b \<longrightarrow> v nodeID)"
    proof (cases rule: dfsPostE)
      case (1 st)
      then show ?thesis
        by (simp add: hasCycleDFS.simps Let_def out dfsPost_def)
    next
      case (2 visited')
      have succs: "visited' y \<and> \<not> ?r1 y" if "(nodeID, y) \<in> edgeRel g" for y
      proof -
        from that obtain edge where "edge \<in> set ?out" "ID (To edge) = y"
          by (auto simp: edgeRel_def)
        with tg 2(1) show ?thesis by auto
      qed
      have "dfsInv g visited' (?r1(nodeID := False))"
        by (rule finish_node[OF 2(3)]) (use succs in auto)
      moreover have "?r1(nodeID := False) = recStack" using nr by (auto simp: fun_eq_iff)
      ultimately have "dfsInv g visited' recStack" by simp
      moreover have "hasCycleDFS g nodeID (visited, recStack) = Some (False, visited', recStack)"
        using 2(1) nr by (simp add: hasCycleDFS.simps Let_def out fun_eq_iff)
      moreover have "visited' nodeID" using 2(2)[of nodeID] by simp
      moreover have "\<forall>x. visited x \<longrightarrow> visited' x" using 2(2) nv by (auto split: if_splits)
      ultimately show ?thesis by (simp add: dfsPost_def)
    qed
  qed
next
  case (2 g visited recStack)
  show ?case by (simp add: dfsPost_def)
next
  case (3 g edge rest visited recStack)
  show ?case
  proof (intro impI allI, elim conjE)
    fix n
    assume wf: "wfGraph g" and grey: "recStack n"
      and es: "\<forall>e \<in> set (edge # rest). e \<in> set (edges g) \<and> ID (From e) = n"
      and path: "\<forall>x. recStack x \<longrightarrow> (x, n) \<in> (edgeRel g)\<^sup>*"
      and inv: "dfsInv g visited recStack"
    let ?t = "ID (To edge)"
    from es have e: "edge \<in> set (edges g)" "ID (From edge) = n"
      and es': "\<forall>e \<in> set rest. e \<in> set (edges g) \<and> ID (From e) = n" by auto
    from e have nt: "(n, ?t) \<in> edgeRel g" by (auto simp: edgeRel_def intro: rev_image_eqI)
    have tk: "?t \<in> fst ` set (nodes g)" by (rule wf_edge_target(1)[OF wf e(1)])
    show "dfsPost g visited recStack (hasCycleEdges g (edge # rest) (visited, recStack))
         \<and> (\<forall>b v r. hasCycleEdges g (edge # rest) (visited, recStack) = Some (b, v, r) \<longrightarrow> \<not> b \<longrightarrow>
               (\<forall>e \<in> set (edge # rest). v (ID (To e)) \<and> \<not> recStack (ID (To e))))"
    proof (cases "visited ?t")
      case nv: False
      have path': "\<forall>x. recStack x \<longrightarrow> (x, ?t) \<in> (edgeRel g)\<^sup>+"
        using path nt by (auto intro: rtrancl_into_trancl1)
      from 3(1)[OF nv, THEN mp, OF wf, THEN mp, OF tk, THEN mp, OF nv, THEN mp, OF inv, THEN mp, OF path']
      have post: "dfsPost g visited recStack (hasCycleDFS g ?t (visited, recStack))"
        and vt: "\<forall>b v r. hasCycleDFS g ?t (visited, recStack) = Some (b, v, r) \<longrightarrow> \<not> b \<longrightarrow> v ?t"
        by (rule conjunct1, rule conjunct2)
      from post show ?thesis
      proof (cases rule: dfsPostE)
        case (1 st)
        then show ?thesis using nv by (simp add: dfsPost_def)
      next
        case (2 visited')
        have nrt: "\<not> recStack ?t" using dfsInvD(1)[OF inv, of ?t] nv by blast
        from vt 2(1) have v't: "visited' ?t" by auto
        have pre2: "recStack n \<and> (\<forall>e \<in> set rest. e \<in> set (edges g) \<and> ID (From e) = n)
            \<and> (\<forall>x. recStack x \<longrightarrow> (x, n) \<in> (edgeRel g)\<^sup>*) \<and> dfsInv g visited' recStack"
          using grey es' path 2(3) by simp
        from 3(2)[OF nv 2(1) refl refl, THEN mp, OF wf, THEN spec, of n, THEN mp, OF pre2]
        have post2: "dfsPost g visited' recStack (hasCycleEdges g rest (visited', recStack))"
          and tg2: "\<forall>b v r. hasCycleEdges g rest (visited', recStack) = Some (b, v, r) \<longrightarrow> \<not> b \<longrightarrow>
               (\<forall>e \<in> set rest. v (ID (To e)) \<and> \<not> recStack (ID (To e)))"
          by (rule conjunct1, rule conjunct2)
        have eq: "hasCycleEdges g (edge # rest) (visited, recStack) = hasCycleEdges g rest (visited', recStack)"
          using nv 2(1) by simp
        from post2 show ?thesis
        proof (cases rule: dfsPostE)
          case (1 st)
          then show ?thesis using eq by (simp add: dfsPost_def)
        next
          case (2 v2)
          with tg2 have "\<forall>e \<in> set rest. v2 (ID (To e)) \<and> \<not> recStack (ID (To e))" by auto
          moreover have "v2 ?t" using 2(2) v't by blast
          moreover have "\<forall>x. visited x \<longrightarrow> v2 x" using 2(2) \<open>\<And>x. visited x \<Longrightarrow> visited' x\<close> by blast
          ultimately show ?thesis using eq 2(1,3) nrt by (simp add: dfsPost_def)
        qed
      qed
    next
      case vis: True
      show ?thesis
      proof (cases "recStack ?t")
        case True
        with path have "(?t, n) \<in> (edgeRel g)\<^sup>*" by blast
        from this nt have "(?t, ?t) \<in> (edgeRel g)\<^sup>+" by (rule rtrancl_into_trancl1)
        then have "cyclic g" unfolding cyclic_def by blast
        with vis True show ?thesis by (simp add: dfsPost_def)
      next
        case nrt: False
        have nnv: "\<not> \<not> visited ?t" using vis by simp
        have pre2: "recStack n \<and> (\<forall>e \<in> set rest. e \<in> set (edges g) \<and> ID (From e) = n)
            \<and> (\<forall>x. recStack x \<longrightarrow> (x, n) \<in> (edgeRel g)\<^sup>*) \<and> dfsInv g visited recStack"
          using grey es' path inv by simp
        from 3(3)[OF nnv nrt, THEN mp, OF wf, THEN spec, of n, THEN mp, OF pre2]
        have post2: "dfsPost g visited recStack (hasCycleEdges g rest (visited, recStack))"
          and tg2: "\<forall>b v r. hasCycleEdges g rest (visited, recStack) = Some (b, v, r) \<longrightarrow> \<not> b \<longrightarrow>
               (\<forall>e \<in> set rest. v (ID (To e)) \<and> \<not> recStack (ID (To e)))"
          by (rule conjunct1, rule conjunct2)
        have eq: "hasCycleEdges g (edge # rest) (visited, recStack) = hasCycleEdges g rest (visited, recStack)"
          using vis nrt by simp
        from post2 show ?thesis
        proof (cases rule: dfsPostE)
          case (1 st)
          then show ?thesis using eq by (simp add: dfsPost_def)
        next
          case (2 v2)
          with tg2 have "\<forall>e \<in> set rest. v2 (ID (To e)) \<and> \<not> recStack (ID (To e))" by auto
          moreover have "v2 ?t" using 2(2) vis by blast
          ultimately show ?thesis using eq 2 nrt by (simp add: dfsPost_def)
        qed
      qed
    qed
  qed
qed

lemma hasCycleNodes_correct:
  assumes wf: "wfGraph g"
  shows "set ids \<subseteq> fst ` set (nodes g) \<Longrightarrow> dfsInv g visited recStack \<Longrightarrow> \<forall>x. \<not> recStack x \<Longrightarrow>
     \<exists>b. hasCycleNodes g ids (visited, recStack) = Some b \<and> (b \<longrightarrow> cyclic g)
         \<and> (\<not> b \<longrightarrow> (\<exists>visited'. dfsInv g visited' recStack \<and> (\<forall>x. visited x \<longrightarrow> visited' x)
                            \<and> (\<forall>k \<in> set ids. visited' k)))"
proof (induction ids arbitrary: visited)
  case Nil
  then show ?case by auto
next
  case (Cons k ids)
  from Cons.prems(1) have k: "k \<in> fst ` set (nodes g)" and ids: "set ids \<subseteq> fst ` set (nodes g)"
    by auto
  show ?case
  proof (cases "visited k")
    case True
    from Cons.IH[OF ids Cons.prems(2,3)] obtain b where
      b: "hasCycleNodes g ids (visited, recStack) = Some b" "b \<longrightarrow> cyclic g"
      "\<not> b \<longrightarrow> (\<exists>visited'. dfsInv g visited' recStack \<and> (\<forall>x. visited x \<longrightarrow> visited' x)
                            \<and> (\<forall>k \<in> set ids. visited' k))"
      by blast
    have "hasCycleNodes g (k # ids) (visited, recStack) = Some b" using True b(1) by simp
    moreover have "\<not> b \<longrightarrow> (\<exists>visited'. dfsInv g visited' recStack \<and> (\<forall>x. visited x \<longrightarrow> visited' x)
                            \<and> (\<forall>k \<in> set (k # ids). visited' k))"
      using b(3) True by auto
    ultimately show ?thesis using b(2) by blast
  next
    case nv: False
    have path: "\<forall>x. recStack x \<longrightarrow> (x, k) \<in> (edgeRel g)\<^sup>+" using Cons.prems(3) by simp
    from hasCycle_correct_aux(1)[where visited = visited and recStack = recStack and g = g
           and nodeID = k, THEN mp, OF wf, THEN mp, OF k, THEN mp, OF nv, THEN mp,
           OF Cons.prems(2), THEN mp, OF path]
    have post: "dfsPost g visited recStack (hasCycleDFS g k (visited, recStack))"
      and vk: "\<forall>b v r. hasCycleDFS g k (visited, recStack) = Some (b, v, r) \<longrightarrow> \<not> b \<longrightarrow> v k"
      by (rule conjunct1, rule conjunct2)
    from post show ?thesis
    proof (cases rule: dfsPostE)
      case (1 st)
      with nv show ?thesis by (intro exI[of _ True]) simp
    next
      case (2 visited')
      from vk 2(1) have v'k: "visited' k" by auto
      from Cons.IH[OF ids 2(3) Cons.prems(3)] obtain b where
        b: "hasCycleNodes g ids (visited', recStack) = Some b" "b \<longrightarrow> cyclic g"
        "\<not> b \<longrightarrow> (\<exists>v2. dfsInv g v2 recStack \<and> (\<forall>x. visited' x \<longrightarrow> v2 x)
                            \<and> (\<forall>k \<in> set ids. v2 k))"
        by blast
      have "hasCycleNodes g (k # ids) (visited, recStack) = Some b" using nv 2(1) b(1) by simp
      moreover have "\<not> b \<longrightarrow> (\<exists>v2. dfsInv g v2 recStack \<and> (\<forall>x. visited x \<longrightarrow> v2 x)
                            \<and> (\<forall>k \<in> set (k # ids). v2 k))"
      proof
        assume "\<not> b"
        with b(3) obtain v2 where "dfsInv g v2 recStack" "\<forall>x. visited' x \<longrightarrow> v2 x" "\<forall>k \<in> set ids. v2 k"
          by blast
        with 2(2) v'k show "\<exists>v2. dfsInv g v2 recStack \<and> (\<forall>x. visited x \<longrightarrow> v2 x)
                            \<and> (\<forall>k \<in> set (k # ids). v2 k)"
          by (intro exI[of _ v2]) auto
      qed
      ultimately show ?thesis using b(2) by blast
    qed
  qed
qed

lemma HasCycle_correct:
  assumes wf: "wfGraph g"
  shows "HasCycle g = Some (cyclic g)"
proof -
  have inv0: "dfsInv g (\<lambda>k. False) (\<lambda>k. False)" by (rule dfsInvI) simp_all
  from hasCycleNodes_correct[OF wf _ inv0, of "map fst (nodes g)"] obtain b where
    b: "HasCycle g = Some b" "b \<longrightarrow> cyclic g"
    "\<not> b \<longrightarrow> (\<exists>visited'. dfsInv g visited' (\<lambda>k. False) \<and> (\<forall>k \<in> set (map fst (nodes g)). visited' k))"
    unfolding HasCycle_def by auto
  have "\<not> cyclic g" if "\<not> b"
  proof
    assume "cyclic g"
    then obtain x where x: "(x, x) \<in> (edgeRel g)\<^sup>+" unfolding cyclic_def by blast
    from tranclD[OF x] obtain y where "(x, y) \<in> edgeRel g" by blast
    then obtain edge where "edge \<in> set (edges g)" "ID (From edge) = x" by (auto simp: edgeRel_def)
    with wf_edge_target(2)[OF wf] have xk: "x \<in> fst ` set (nodes g)" by blast
    from that b(3) obtain visited' where v: "dfsInv g visited' (\<lambda>k. False)"
      "\<forall>k \<in> set (map fst (nodes g)). visited' k" by blast
    with xk have "visited' x" by auto
    from dfsInvD(4)[OF v(1) this] x show False by simp
  qed
  with b show ?thesis by (cases b) auto
qed

subsection \<open>TopologicalSort\<close>

lemma kahnMidD:
  assumes "kahnMid g es queue d srt"
  shows "distinct (map ID (srt @ queue))"
    and "n \<in> set (srt @ queue) \<Longrightarrow> GetNode g (ID n) = Some n"
    and "k \<in> nodeIDs g \<Longrightarrow> degreeOf d k = int (remainingIn g (ID ` set srt) k) + int (countTo es k)"
    and "k \<in> nodeIDs g \<Longrightarrow> (k \<in> ID ` set (srt @ queue)) = (degreeOf d k = 0)"
    and "ordered g srt"
  using assms unfolding kahnMid_def by blast+

lemma kahnMidI:
  assumes "distinct (map ID (srt @ queue))"
    and "\<And>n. n \<in> set (srt @ queue) \<Longrightarrow> GetNode g (ID n) = Some n"
    and "\<And>k. k \<in> nodeIDs g \<Longrightarrow> degreeOf d k = int (remainingIn g (ID ` set srt) k) + int (countTo es k)"
    and "\<And>k. k \<in> nodeIDs g \<Longrightarrow> (k \<in> ID ` set (srt @ queue)) = (degreeOf d k = 0)"
    and "ordered g srt"
  shows "kahnMid g es queue d srt"
  using assms unfolding kahnMid_def by blast

lemma wf_edge_nodes:
  assumes "wfGraph g" "e \<in> set (edges g)"
  shows "GetNode g (ID (To e)) = Some (To e)" "GetNode g (ID (From e)) = Some (From e)"
    "ID (To e) \<in> nodeIDs g" "ID (From e) \<in> nodeIDs g"
  using assms wf_edge_target[OF assms]
  by (auto simp: wfGraph_def list_all_iff nodeIDs_def)

lemma GetNode_nodeIDs: "GetNode g k = Some n \<Longrightarrow> k \<in> nodeIDs g"
  by (auto simp: GetNode_def nodeIDs_def dest!: map_of_SomeD intro: rev_image_eqI)

lemma relax_inv:
  assumes wf: "wfGraph g"
  shows "set es \<subseteq> set (edges g) \<Longrightarrow> kahnMid g es q d srt \<Longrightarrow> relaxEdges es (d, q) = (d', q')
           \<Longrightarrow> kahnMid g [] q' d' srt"
proof (induction es arbitrary: d q)
  case Nil
  then show ?case by simp
next
  case (Cons e es)
  let ?t = "ID (To e)"
  let ?d1 = "AList.update ?t (degreeOf d ?t - 1) d"
  let ?q1 = "if degreeOf ?d1 ?t = 0 then q @ [To e] else q"
  note mid = Cons.prems(2)
  from Cons.prems have e: "e \<in> set (edges g)" and sub: "set es \<subseteq> set (edges g)"
    and run: "relaxEdges es (?d1, ?q1) = (d', q')"
    by (auto simp: Let_def)
  note tn = wf_edge_nodes[OF wf e]
  have dt: "degreeOf d ?t = int (remainingIn g (ID ` set srt) ?t) + int (countTo es ?t) + 1"
    using kahnMidD(3)[OF mid tn(3)] by (simp add: countTo_def)
  then have dt_pos: "degreeOf d ?t \<noteq> 0" by linarith
  have tnotin: "?t \<notin> ID ` set (srt @ q)" using kahnMidD(4)[OF mid tn(3)] dt_pos by simp
  have deg1: "degreeOf ?d1 k = int (remainingIn g (ID ` set srt) k) + int (countTo es k)"
    if "k \<in> nodeIDs g" for k
  proof (cases "k = ?t")
    case True
    with dt show ?thesis by (simp add: degreeOf_update)
  next
    case False
    with kahnMidD(3)[OF mid that] show ?thesis by (simp add: degreeOf_update countTo_def)
  qed
  have "kahnMid g es ?q1 ?d1 srt"
  proof (cases "degreeOf ?d1 ?t = 0")
    case True
    show ?thesis
    proof (rule kahnMidI)
      show "distinct (map ID (srt @ ?q1))"
        using True kahnMidD(1)[OF mid] tnotin by auto
      show "GetNode g (ID n) = Some n" if "n \<in> set (srt @ ?q1)" for n
        using that True kahnMidD(2)[OF mid, of n] tn(1) by auto
      show "degreeOf ?d1 k = int (remainingIn g (ID ` set srt) k) + int (countTo es k)"
        if "k \<in> nodeIDs g" for k by (rule deg1[OF that])
      show "(k \<in> ID ` set (srt @ ?q1)) = (degreeOf ?d1 k = 0)" if "k \<in> nodeIDs g" for k
      proof (cases "k = ?t")
        case kt: True
        with True show ?thesis by simp
      next
        case False
        with kahnMidD(4)[OF mid that] True show ?thesis by (auto simp: degreeOf_update)
      qed
      show "ordered g srt" by (rule kahnMidD(5)[OF mid])
    qed
  next
    case False
    show ?thesis
    proof (rule kahnMidI)
      show "distinct (map ID (srt @ ?q1))" using False kahnMidD(1)[OF mid] by simp
      show "GetNode g (ID n) = Some n" if "n \<in> set (srt @ ?q1)" for n
        using that False kahnMidD(2)[OF mid, of n] by simp
      show "degreeOf ?d1 k = int (remainingIn g (ID ` set srt) k) + int (countTo es k)"
        if "k \<in> nodeIDs g" for k by (rule deg1[OF that])
      show "(k \<in> ID ` set (srt @ ?q1)) = (degreeOf ?d1 k = 0)" if "k \<in> nodeIDs g" for k
      proof (cases "k = ?t")
        case kt: True
        with False tnotin show ?thesis by simp
      next
        case kf: False
        with kahnMidD(4)[OF mid that] False show ?thesis by (simp add: degreeOf_update)
      qed
      show "ordered g srt" by (rule kahnMidD(5)[OF mid])
    qed
  qed
  from Cons.IH[OF sub this run] show ?case .
qed

lemma filter_split_length:
  "length (filter P xs) = length (filter (\<lambda>x. P x \<and> Q x) xs) + length (filter (\<lambda>x. P x \<and> \<not> Q x) xs)"
  by (induction xs) auto

lemma snoc_decomp:
  assumes "xs @ [x] = ys @ m # zs"
  shows "(zs = [] \<and> ys = xs \<and> m = x) \<or> (\<exists>zs'. zs = zs' @ [x] \<and> xs = ys @ m # zs')"
  using assms by (cases zs rule: rev_cases) auto

lemma kahn_pop:
  assumes inv: "kahnMid g [] (n # q) d srt"
  shows "kahnMid g (GetOutgoingEdges g n) q d (srt @ [n])"
proof (rule kahnMidI)
  show "distinct (map ID ((srt @ [n]) @ q))" using kahnMidD(1)[OF inv] by simp
  show "GetNode g (ID m) = Some m" if "m \<in> set ((srt @ [n]) @ q)" for m
    using that kahnMidD(2)[OF inv, of m] by simp
  have nS: "ID n \<notin> ID ` set srt" using kahnMidD(1)[OF inv] by auto
  have nS': "ID x \<noteq> ID n" if "x \<in> set srt" for x
  proof
    assume "ID x = ID n"
    with that have "ID n \<in> ID ` set srt" by (metis imageI)
    with nS show False by simp
  qed
  show "degreeOf d k = int (remainingIn g (ID ` set (srt @ [n])) k) + int (countTo (GetOutgoingEdges g n) k)"
    if "k \<in> nodeIDs g" for k
  proof -
    have "remainingIn g (ID ` set srt) k
            = length (filter (\<lambda>e. (ID (To e) = k \<and> ID (From e) \<notin> ID ` set srt) \<and> ID (From e) = ID n) (edges g))
              + length (filter (\<lambda>e. (ID (To e) = k \<and> ID (From e) \<notin> ID ` set srt) \<and> ID (From e) \<noteq> ID n) (edges g))"
      unfolding remainingIn_def by (rule filter_split_length)
    also have "(\<lambda>e. (ID (To e) = k \<and> ID (From e) \<notin> ID ` set srt) \<and> ID (From e) = ID n)
                 = (\<lambda>e. ID (To e) = k \<and> ID (From e) = ID n)"
      using nS' by (auto simp: fun_eq_iff)
    also have "(\<lambda>e. (ID (To e) = k \<and> ID (From e) \<notin> ID ` set srt) \<and> ID (From e) \<noteq> ID n)
                 = (\<lambda>e. ID (To e) = k \<and> ID (From e) \<notin> ID ` set (srt @ [n]))"
      by (auto simp: fun_eq_iff)
    also have "length (filter (\<lambda>e. ID (To e) = k \<and> ID (From e) = ID n) (edges g))
                 = countTo (GetOutgoingEdges g n) k"
      by (simp add: countTo_def GetOutgoingEdges_def conj_commute)
    finally have "remainingIn g (ID ` set srt) k
                    = countTo (GetOutgoingEdges g n) k + remainingIn g (ID ` set (srt @ [n])) k"
      by (simp add: remainingIn_def)
    with kahnMidD(3)[OF inv that] show ?thesis by (simp add: countTo_def)
  qed
  show "(k \<in> ID ` set ((srt @ [n]) @ q)) = (degreeOf d k = 0)" if "k \<in> nodeIDs g" for k
    using kahnMidD(4)[OF inv that] by simp
  show "ordered g (srt @ [n])"
    unfolding ordered_def
  proof (intro allI impI ballI)
    fix ys m zs e
    assume dec: "srt @ [n] = ys @ m # zs" and e: "e \<in> set (edges g)" and te: "ID (To e) = ID m"
    from snoc_decomp[OF dec] show "ID (From e) \<in> ID ` set ys"
    proof
      assume a: "zs = [] \<and> ys = srt \<and> m = n"
      have nk: "ID n \<in> nodeIDs g"
        using kahnMidD(2)[OF inv, of n] by (auto intro: GetNode_nodeIDs)
      from kahnMidD(4)[OF inv nk] have "degreeOf d (ID n) = 0" by simp
      with kahnMidD(3)[OF inv nk] have "remainingIn g (ID ` set srt) (ID n) = 0"
        by (simp add: countTo_def)
      then have "filter (\<lambda>e. ID (To e) = ID n \<and> ID (From e) \<notin> ID ` set srt) (edges g) = []"
        by (simp add: remainingIn_def)
      with e te a show ?thesis by (auto simp: filter_empty_conv)
    next
      assume "\<exists>zs'. zs = zs' @ [n] \<and> srt = ys @ m # zs'"
      then obtain zs' where "srt = ys @ m # zs'" by blast
      with kahnMidD(5)[OF inv] e te show ?thesis unfolding ordered_def by blast
    qed
  qed
qed

lemma kahnLoop_inv:
  "wfGraph g \<Longrightarrow> kahnMid g [] q d srt \<Longrightarrow> \<exists>d'. kahnMid g [] [] d' (kahnLoop g q d srt)"
proof (induction g q d srt rule: kahnLoop.induct)
  case (1 g inDegree sortedNodes)
  then show ?case by auto
next
  case (2 g node queue inDegree sortedNodes)
  obtain d1 q1 where r: "relaxEdges (GetOutgoingEdges g node) (inDegree, queue) = (d1, q1)"
    by (cases "relaxEdges (GetOutgoingEdges g node) (inDegree, queue)")
  have sub: "set (GetOutgoingEdges g node) \<subseteq> set (edges g)" by (auto simp: GetOutgoingEdges_def)
  from relax_inv[OF 2(2) sub kahn_pop[OF 2(3)] r]
  have "kahnMid g [] q1 d1 (sortedNodes @ [node])" .
  from 2(1)[OF r[symmetric] 2(2) this] r show ?case by simp
qed

lemma countInDegrees_fold:
  "degreeOf (fold (\<lambda>edge inDegree.
                AList.update (ID (To edge)) (degreeOf inDegree (ID (To edge)) + 1) inDegree) es d) k
     = degreeOf d k + int (countTo es k)"
proof (induction es arbitrary: d)
  case Nil
  then show ?case by (simp add: countTo_def)
next
  case (Cons e es)
  show ?case
    by (simp add: Cons.IH degreeOf_update countTo_def)
qed

lemma countInDegrees_keys_fold:
  "ID ` To ` set es \<subseteq> fst ` set d \<Longrightarrow>
   map fst (fold (\<lambda>edge inDegree.
                AList.update (ID (To edge)) (degreeOf inDegree (ID (To edge)) + 1) inDegree) es d)
     = map fst d"
proof (induction es arbitrary: d)
  case Nil
  then show ?case by simp
next
  case (Cons e es)
  let ?d1 = "AList.update (ID (To e)) (degreeOf d (ID (To e)) + 1) d"
  from Cons.prems have k: "map fst ?d1 = map fst d" by (simp add: update_keys)
  then have "fst ` set ?d1 = fst ` set d" by (metis set_map)
  with Cons.prems have "ID ` To ` set es \<subseteq> fst ` set ?d1" by simp
  from Cons.IH[OF this] k show ?case by simp
qed

lemma degreeOf_zero_map: "degreeOf (map (\<lambda>(nodeID, node). (nodeID, 0)) ns) k = 0"
  by (induction ns) (auto simp: degreeOf_def)

lemma degreeOf_countInDegrees:
  "degreeOf (countInDegrees g) k = int (countTo (edges g) k)"
  by (simp add: countInDegrees_def countInDegrees_fold degreeOf_zero_map)

lemma keys_countInDegrees:
  assumes "wfGraph g"
  shows "map fst (countInDegrees g) = map fst (nodes g)"
proof -
  have "ID ` To ` set (edges g) \<subseteq> fst ` set (map (\<lambda>(nodeID, node). (nodeID, 0::int)) (nodes g))"
    using wf_edge_target(1)[OF assms] by (force simp: image_iff)
  from countInDegrees_keys_fold[OF this] show ?thesis
    by (simp add: countInDegrees_def case_prod_unfold comp_def)
qed

lemma zeroDegreeQueue_wf:
  assumes wf: "wfGraph g"
  shows "fst ` set al \<subseteq> nodeIDs g \<Longrightarrow>
         \<exists>q. zeroDegreeQueue g al = Some q
             \<and> map ID q = map fst (filter (\<lambda>(k, dg). dg = 0) al)
             \<and> (\<forall>n \<in> set q. GetNode g (ID n) = Some n)"
proof (induction al)
  case Nil
  then show ?case by simp
next
  case (Cons p al)
  obtain k dg where p: "p = (k, dg)" by (cases p)
  from Cons.prems p have k: "k \<in> fst ` set (nodes g)" and sub: "fst ` set al \<subseteq> nodeIDs g"
    by (auto simp: nodeIDs_def)
  from wf_GetNode[OF wf k] obtain node where node: "GetNode g k = Some node" "ID node = k" by blast
  from Cons.IH[OF sub] obtain q where q: "zeroDegreeQueue g al = Some q"
    "map ID q = map fst (filter (\<lambda>(k, dg). dg = 0) al)" "\<forall>n \<in> set q. GetNode g (ID n) = Some n"
    by blast
  show ?case
  proof (cases "dg = 0")
    case True
    with p node q show ?thesis by simp
  next
    case False
    with p q show ?thesis by simp
  qed
qed

lemma kahn_init:
  assumes wf: "wfGraph g"
  shows "\<exists>q. zeroDegreeQueue g (countInDegrees g) = Some q \<and> kahnMid g [] q (countInDegrees g) []"
proof -
  let ?d = "countInDegrees g"
  have keys: "map fst ?d = map fst (nodes g)" by (rule keys_countInDegrees[OF wf])
  then have kset: "fst ` set ?d = nodeIDs g" unfolding nodeIDs_def by (metis set_map)
  have dist: "distinct (map fst ?d)" using keys wf by (simp add: wfGraph_def)
  from zeroDegreeQueue_wf[OF wf, of ?d] kset obtain q where
    q: "zeroDegreeQueue g ?d = Some q" "map ID q = map fst (filter (\<lambda>(k, dg). dg = 0) ?d)"
    "\<forall>n \<in> set q. GetNode g (ID n) = Some n"
    by auto
  have "kahnMid g [] q ?d []"
  proof (rule kahnMidI)
    show "distinct (map ID ([] @ q))" using q(2) dist by (simp add: distinct_map_filter)
    show "GetNode g (ID n) = Some n" if "n \<in> set ([] @ q)" for n using that q(3) by simp
    show "degreeOf ?d k = int (remainingIn g (ID ` set []) k) + int (countTo [] k)" for k
      by (simp add: degreeOf_countInDegrees remainingIn_def countTo_def)
    show "(k \<in> ID ` set ([] @ q)) = (degreeOf ?d k = 0)" if "k \<in> nodeIDs g" for k
    proof -
      from that kset have "k \<in> fst ` set ?d" by simp
      then obtain dg where dg: "(k, dg) \<in> set ?d" by force
      with dist have m: "map_of ?d k = Some dg" by simp
      have "ID ` set q = set (map ID q)" by simp
      also have "\<dots> = fst ` {p \<in> set ?d. snd p = 0}" unfolding q(2) by (auto simp: image_iff)
      finally have qeq: "ID ` set q = fst ` {p \<in> set ?d. snd p = 0}" .
      have "(k \<in> ID ` set q) = (\<exists>p \<in> set ?d. fst p = k \<and> snd p = 0)"
        unfolding qeq by force
      also have "\<dots> = (dg = 0)"
      proof
        assume "\<exists>p \<in> set ?d. fst p = k \<and> snd p = 0"
        then have "(k, 0) \<in> set ?d" by force
        with dist have "map_of ?d k = Some 0" by simp
        with m show "dg = 0" by simp
      next
        assume "dg = 0" with dg show "\<exists>p \<in> set ?d. fst p = k \<and> snd p = 0" by force
      qed
      finally show ?thesis using m by (simp add: degreeOf_def)
    qed
    show "ordered g []" by (simp add: ordered_def)
  qed
  with q(1) show ?thesis by blast
qed

lemma kahn_final:
  assumes wf: "wfGraph g" and ac: "\<not> cyclic g" and inv: "kahnMid g [] [] d srt"
  shows "ID ` set srt = nodeIDs g"
proof
  show "ID ` set srt \<subseteq> nodeIDs g"
    using kahnMidD(2)[OF inv] by (auto intro: GetNode_nodeIDs)
  show "nodeIDs g \<subseteq> ID ` set srt"
  proof (rule ccontr)
    assume "\<not> nodeIDs g \<subseteq> ID ` set srt"
    then obtain k0 where k0: "k0 \<in> nodeIDs g - ID ` set srt" by blast
    have "finite (edgeRel g)" by (simp add: edgeRel_def)
    moreover from ac have "acyclic (edgeRel g)" by (simp add: acyclic_def cyclic_def)
    ultimately have "wf (edgeRel g)" by (rule finite_acyclic_wf)
    from wfE_min[OF this k0] obtain z where z: "z \<in> nodeIDs g - ID ` set srt"
      and zmin: "\<And>y. (y, z) \<in> edgeRel g \<Longrightarrow> y \<notin> nodeIDs g - ID ` set srt"
      by blast
    from z have zk: "z \<in> nodeIDs g" and zS: "z \<notin> ID ` set srt" by auto
    from kahnMidD(4)[OF inv zk] zS have "degreeOf d z \<noteq> 0" by simp
    with kahnMidD(3)[OF inv zk] have "remainingIn g (ID ` set srt) z \<noteq> 0" by (simp add: countTo_def)
    then have "filter (\<lambda>e. ID (To e) = z \<and> ID (From e) \<notin> ID ` set srt) (edges g) \<noteq> []"
      by (simp add: remainingIn_def)
    then obtain e where e: "e \<in> set (edges g)" "ID (To e) = z" "ID (From e) \<notin> ID ` set srt"
      by (auto simp: filter_empty_conv)
    from e(1,2) have "(ID (From e), z) \<in> edgeRel g" by (auto simp: edgeRel_def intro: rev_image_eqI)
    from zmin[OF this] e(3) wf_edge_nodes(4)[OF wf e(1)] show False by simp
  qed
qed

text \<open>
  C3, as the claim states it, fails: \<open>AddEdge\<close> does not check that the ends of an edge
  are nodes of the graph, and \<open>TopologicalSort\<close> relies on it. Here \<open>node1\<close> is a node of
  the graph and the edge from \<open>node1\<close> to \<open>node2\<close> has an end that was never added: the
  graph has no cycle, \<open>hasCycleDFS\<close> follows the edge, \<open>GetNode\<close> does not find \<open>node2\<close>,
  and \<open>GetOutgoingEdges\<close> dereferences the \<open>nil\<close> node. No list is returned.
\<close>

theorem TopologicalSort_dangling_edge_counterexample:
  "\<not> cyclic danglingGraph \<and> TopologicalSort danglingGraph = None"
proof -
  have er: "edgeRel danglingGraph = {(''node1'', ''node2'')}"
    by (simp add: edgeRel_def graph_eval_defs danglingGraph_def)
  have "\<not> cyclic danglingGraph"
  proof
    assume "cyclic danglingGraph"
    then obtain x where x: "(x, x) \<in> (edgeRel danglingGraph)\<^sup>+" unfolding cyclic_def by blast
    from tranclD[OF x] er have "x = ''node1''" by auto
    moreover from tranclD2[OF x] er have "x = ''node2''" by auto
    ultimately show False by simp
  qed
  moreover have "TopologicalSort danglingGraph = None"
    by (simp add: graph_eval_defs danglingGraph_def TopologicalSort_def HasCycle_def
          hasCycleDFS.simps)
  ultimately show ?thesis by simp
qed

text \<open>
  C3, amended. For every graph in which every node is stored under its own identifier
  and both ends of every edge are nodes of the graph: when the graph has no cycle,
  \<open>TopologicalSort\<close> returns, with no error, a list that contains every node of the graph
  exactly once and in which, for every edge, the source comes strictly before the target;
  when the graph has a cycle, it returns the error \<open>CyclicGraph\<close> and no list. The function
  has no effect but its result: it writes to maps and slices of its own only.
\<close>

theorem TopologicalSort_correct:
  assumes wf: "wfGraph g"
  shows "(\<not> cyclic g \<longrightarrow>
            (\<exists>srt. TopologicalSort g = Some (srt, None)
                \<and> distinct srt \<and> set srt = snd ` set (nodes g)
                \<and> (\<forall>e \<in> set (edges g). \<exists>ys zs. srt = ys @ To e # zs \<and> From e \<in> set ys)))
       \<and> (cyclic g \<longrightarrow> TopologicalSort g = Some ([], Some CyclicGraph))"
proof (intro conjI impI)
  assume "cyclic g"
  with HasCycle_correct[OF wf] show "TopologicalSort g = Some ([], Some CyclicGraph)"
    by (simp add: TopologicalSort_def)
next
  assume ac: "\<not> cyclic g"
  from kahn_init[OF wf] obtain q where q: "zeroDegreeQueue g (countInDegrees g) = Some q"
    and init: "kahnMid g [] q (countInDegrees g) []" by blast
  let ?srt = "kahnLoop g q (countInDegrees g) []"
  from kahnLoop_inv[OF wf init] obtain d' where fin: "kahnMid g [] [] d' ?srt" by blast
  have run: "TopologicalSort g = Some (?srt, None)"
    using HasCycle_correct[OF wf] ac q by (simp add: TopologicalSort_def Let_def)
  have ids: "ID ` set ?srt = nodeIDs g" by (rule kahn_final[OF wf ac fin])
  have valid: "GetNode g (ID n) = Some n" if "n \<in> set ?srt" for n
    using kahnMidD(2)[OF fin, of n] that by simp
  have dist: "distinct (map ID ?srt)" using kahnMidD(1)[OF fin] by simp
  then have d2: "distinct ?srt" by (simp add: distinct_map)
  have dk: "distinct (map fst (nodes g))" using wf by (simp add: wfGraph_def)
  have set_eq: "set ?srt = snd ` set (nodes g)"
  proof (intro set_eqI iffI)
    fix n assume "n \<in> set ?srt"
    from valid[OF this] have "(ID n, n) \<in> set (nodes g)" by (auto simp: GetNode_def dest: map_of_SomeD)
    then show "n \<in> snd ` set (nodes g)" by force
  next
    fix n assume "n \<in> snd ` set (nodes g)"
    then obtain k where kn: "(k, n) \<in> set (nodes g)" by auto
    then have "k \<in> nodeIDs g" by (force simp: nodeIDs_def)
    with ids have "k \<in> ID ` set ?srt" by simp
    then obtain m where m: "m \<in> set ?srt" "ID m = k" by force
    from valid[OF m(1)] m(2) have "map_of (nodes g) k = Some m" by (simp add: GetNode_def)
    moreover from kn dk have "map_of (nodes g) k = Some n" by simp
    ultimately show "n \<in> set ?srt" using m(1) by simp
  qed
  have order: "\<exists>ys zs. ?srt = ys @ To e # zs \<and> From e \<in> set ys" if e: "e \<in> set (edges g)" for e
  proof -
    note en = wf_edge_nodes[OF wf e]
    from en(1) have "(ID (To e), To e) \<in> set (nodes g)" by (auto simp: GetNode_def dest: map_of_SomeD)
    then have "To e \<in> set ?srt" unfolding set_eq by force
    then obtain ys zs where dec: "?srt = ys @ To e # zs" by (auto dest: split_list)
    from kahnMidD(5)[OF fin] dec e have "ID (From e) \<in> ID ` set ys" unfolding ordered_def by blast
    then obtain m where m: "m \<in> set ys" "ID m = ID (From e)" by auto
    with dec have "m \<in> set ?srt" by simp
    from valid[OF this] m(2) en(2) have "m = From e" by simp
    with m(1) dec show ?thesis by blast
  qed
  from run d2 set_eq order
  show "\<exists>srt. TopologicalSort g = Some (srt, None)
                \<and> distinct srt \<and> set srt = snd ` set (nodes g)
                \<and> (\<forall>e \<in> set (edges g). \<exists>ys zs. srt = ys @ To e # zs \<and> From e \<in> set ys)"
    by blast
qed


theorem TopologicalSort_correct_witness:
  "wfGraph chainGraph \<and> \<not> cyclic chainGraph
   \<and> TopologicalSort chainGraph = Some ([node1, node2, node3], None)
   \<and> wfGraph loopGraph \<and> cyclic loopGraph
   \<and> TopologicalSort loopGraph = Some ([], Some CyclicGraph)"
proof -
  have wf1: "wfGraph chainGraph"
    by (simp add: graph_eval_defs chainGraph_def wfGraph_def)
  have wf2: "wfGraph loopGraph"
    by (simp add: graph_eval_defs loopGraph_def wfGraph_def)
  have r1: "TopologicalSort chainGraph = Some ([node1, node2, node3], None)"
    by (simp add: graph_eval_defs chainGraph_def TopologicalSort_def HasCycle_def
          hasCycleDFS.simps countInDegrees_def degreeOf_def)
  have r2: "TopologicalSort loopGraph = Some ([], Some CyclicGraph)"
    by (simp add: graph_eval_defs loopGraph_def TopologicalSort_def HasCycle_def
          hasCycleDFS.simps countInDegrees_def degreeOf_def)
  from TopologicalSort_correct[OF wf1] r1 have "\<not> cyclic chainGraph" by auto
  moreover from TopologicalSort_correct[OF wf2] r2 have "cyclic loopGraph" by auto
  ultimately show ?thesis using wf1 wf2 r1 r2 by simp
qed

end
